theory Spec2Isabelle
  imports Main "HOL-Library.Char_ord" "HOL-Library.List_Lexorder" "HOL-Library.Sublist"
    "HOL-Library.AList" "HOL-Library.Multiset"
begin

section \<open>Strings of the interpreter\<close>

text \<open>
  The command dispatcher (\<^verbatim>\<open>src/app.py\<close>) and the CSV helpers (\<^verbatim>\<open>src/io_utils.py\<close>)
  use three string methods: \<^verbatim>\<open>str.strip()\<close>, \<^verbatim>\<open>str.split()\<close> with no argument and
  \<^verbatim>\<open>str.lower()\<close>. A \<^typ>\<open>string\<close> of the model is a string of code points below 256:
  the character \<open>c\<close> is the code point \<open>of_char c\<close>, and the lines, paths and fields the
  program is given are such strings. On them the three methods are those of the
  interpreter. The whitespace of \<^verbatim>\<open>str.strip\<close> and \<^verbatim>\<open>str.split\<close> below 256 is the tab,
  line feed, vertical tab, form feed, carriage return, the four separators 0x1C..0x1F,
  the space, NEL (0x85) and the no-break space (0xA0). The code points with a lowercase
  mapping are \<^verbatim>\<open>A\<close>..\<^verbatim>\<open>Z\<close> and 0xC0..0xDE but the multiplication sign 0xD7; each maps to
  the code point 32 above it, and \<^verbatim>\<open>str.lower\<close> leaves every other code point as it is.
\<close>

definition is_space :: "char \<Rightarrow> bool" where
  "is_space c =
     (let n = (of_char c :: nat)
      in (9 \<le> n \<and> n \<le> 13) \<or> (28 \<le> n \<and> n \<le> 32) \<or> n = 133 \<or> n = 160)"

definition is_upper :: "char \<Rightarrow> bool" where
  "is_upper c =
     (let n = (of_char c :: nat)
      in (65 \<le> n \<and> n \<le> 90) \<or> (192 \<le> n \<and> n \<le> 222 \<and> n \<noteq> 215))"

definition lower_char :: "char \<Rightarrow> char" where
  "lower_char c = (if is_upper c then char_of ((of_char c :: nat) + 32) else c)"

text \<open>\<^verbatim>\<open>s.lower()\<close>\<close>

definition py_lower :: "string \<Rightarrow> string" where
  "py_lower s = map lower_char s"

text \<open>\<^verbatim>\<open>s.strip()\<close>: leading and trailing whitespace removed.\<close>

definition py_strip :: "string \<Rightarrow> string" where
  "py_strip s = rev (dropWhile is_space (rev (dropWhile is_space s)))"

text \<open>
  \<^verbatim>\<open>s.split()\<close>: the maximal runs of characters that are not whitespace, in order;
  \<open>cur\<close> is the run being read.
\<close>

fun split_from :: "string \<Rightarrow> string \<Rightarrow> string list" where
  "split_from cur [] = (if cur = [] then [] else [cur])"
| "split_from cur (c # s) =
     (if is_space c then (if cur = [] then split_from [] s else cur # split_from [] s)
      else split_from (cur @ [c]) s)"

definition py_split :: "string \<Rightarrow> string list" where
  "py_split s = split_from [] s"

text \<open>\<^verbatim>\<open>sep.join(xs)\<close>\<close>

fun py_join :: "string \<Rightarrow> string list \<Rightarrow> string" where
  "py_join sep [] = []"
| "py_join sep [x] = x"
| "py_join sep (x # y # ys) = x @ sep @ py_join sep (y # ys)"

text \<open>The decimal digits of a natural number, as \<^verbatim>\<open>f"{n}"\<close> prints an \<^verbatim>\<open>int\<close>.\<close>

fun str_nat :: "nat \<Rightarrow> string" where
  "str_nat n =
     (if n < 10 then [char_of (48 + n)] else str_nat (n div 10) @ [char_of (48 + n mod 10)])"

section \<open>The interpreter and the file system, as parameters\<close>

text \<open>
  \<^verbatim>\<open>float(s)\<close> and \<^verbatim>\<open>int(s)\<close> are builtins: their grammar and the floating-point
  values are not part of the repository. They are parameters of the model; \<open>None\<close> is
  the \<^verbatim>\<open>ValueError\<close> they raise on a string that is not a number. The type \<open>'w\<close> stands
  for \<^verbatim>\<open>float\<close>, and \<open>0\<close> for \<^verbatim>\<open>0.0\<close>.

  Opening a file for reading and iterating \<^verbatim>\<open>csv.reader\<close> over it either raises
  \<^verbatim>\<open>FileNotFoundError\<close>, raises another exception (at the \<^verbatim>\<open>open\<close> or at some row),
  or yields the rows of the file, each a list of fields; a blank line yields the empty
  row. Writing a file either succeeds or fails; when it fails, \<^verbatim>\<open>open\<close> or the writer
  raises an \<^verbatim>\<open>OSError\<close>, or a \<^verbatim>\<open>ValueError\<close> (a NUL in the path, a string that cannot be
  encoded), which is no \<^verbatim>\<open>OSError\<close>.
\<close>

datatype read_outcome = FileNotFound | ReadFailed | Rows "string list list"

datatype write_failure = RaisesOSError | RaisesValueError

record 'w runtime =
  py_float :: "string \<Rightarrow> 'w option"
  py_int :: "string \<Rightarrow> int option"
  read_csv :: "string \<Rightarrow> read_outcome"
  can_write :: "string \<Rightarrow> bool"
  write_failure :: "string \<Rightarrow> write_failure"

text \<open>
  What a command does to the outside: a line on standard output, one of the three error
  lines of \<^verbatim>\<open>io_utils.py\<close> (each carrying the path it names), the rows handed to
  \<^verbatim>\<open>csv.writer.writerow\<close> for a file, or one of the two error lines that
  \<^verbatim>\<open>parse_and_execute\<close> prints on standard error. A field of a written row is a string or
  a number.
\<close>

datatype 'w field = FStr string | FNum 'w

datatype 'w event =
    Stdout string
  | LoadNotFound string
  | LoadFailed string
  | SaveFailed string
  | Written string "'w field list list"
  | StderrNotFound string
  | StderrFileError

datatype error = ValueError

section \<open>\<^verbatim>\<open>io_utils.py\<close>\<close>

text \<open>
  The body of the \<^verbatim>\<open>for row in reader\<close> loop of \<^verbatim>\<open>load_csv\<close>, for a row that is not
  blank: the word is \<^verbatim>\<open>row[0].strip().lower()\<close>, the score is \<^verbatim>\<open>0.0\<close> unless the row has
  a second field that \<^verbatim>\<open>float\<close> accepts.
\<close>

definition row_word :: "string list \<Rightarrow> string" where
  "row_word row = py_lower (py_strip (hd row))"

definition row_score :: "('w::zero) runtime \<Rightarrow> string list \<Rightarrow> 'w" where
  "row_score rt row =
     (if length row > 1
      then (case py_float rt (row ! 1) of Some v \<Rightarrow> v | None \<Rightarrow> 0)
      else 0)"

text \<open>The loop itself; \<open>results\<close> is the list the loop appends to.\<close>

fun load_rows :: "('w::zero) runtime \<Rightarrow> string list list \<Rightarrow> (string \<times> 'w) list \<Rightarrow> (string \<times> 'w) list" where
  "load_rows rt [] results = results"
| "load_rows rt (row # rows) results =
     (if row = [] then load_rows rt rows results
      else load_rows rt rows (results @ [(row_word row, row_score rt row)]))"

text \<open>\<^verbatim>\<open>load_csv(path)\<close>: the pairs, and what it printed.\<close>

definition load_csv :: "('w::zero) runtime \<Rightarrow> string \<Rightarrow> (string \<times> 'w) list \<times> 'w event list" where
  "load_csv rt path =
     (case read_csv rt path of
        FileNotFound \<Rightarrow> ([], [LoadNotFound path])
      | ReadFailed \<Rightarrow> ([], [LoadFailed path])
      | Rows rows \<Rightarrow> (load_rows rt rows [], []))"

text \<open>
  \<^verbatim>\<open>save_csv(path, items)\<close>: the \<^verbatim>\<open>for word, score in items\<close> loop hands one row
  \<^verbatim>\<open>[word, score]\<close> to the writer per item; \<open>written\<close> is the content of the file so
  far. Nothing is written before the loop. An \<^verbatim>\<open>OSError\<close> is caught and reported; a
  \<^verbatim>\<open>ValueError\<close> leaves \<^verbatim>\<open>save_csv\<close>.
\<close>

fun write_rows :: "(string \<times> 'w) list \<Rightarrow> 'w field list list \<Rightarrow> 'w field list list" where
  "write_rows [] written = written"
| "write_rows ((word, score) # items) written =
     write_rows items (written @ [[FStr word, FNum score]])"

definition save_csv :: "'w runtime \<Rightarrow> string \<Rightarrow> (string \<times> 'w) list \<Rightarrow> error + 'w event list" where
  "save_csv rt path items =
     (if can_write rt path then Inr [Written path (write_rows items [])]
      else (case write_failure rt path of
              RaisesOSError \<Rightarrow> Inr [SaveFailed path]
            | RaisesValueError \<Rightarrow> Inl ValueError))"

section \<open>The trie, as the dispatcher sees it\<close>

text \<open>
  \<^verbatim>\<open>app.py\<close> imports \<^verbatim>\<open>Trie\<close> from \<^verbatim>\<open>src/trie.py\<close> and uses its constructor and six
  methods. The dispatcher is modelled over any implementation of them: \<open>'t\<close> is the
  state of a trie object, and every method returns its result together with the state
  it leaves the object in (\<^verbatim>\<open>insert\<close> returns nothing, so only the state).
\<close>

record ('t, 'w) trie_ops =
  trie_new :: "'t"
  trie_insert :: "string \<Rightarrow> 'w \<Rightarrow> 't \<Rightarrow> 't"
  trie_remove :: "string \<Rightarrow> 't \<Rightarrow> bool \<times> 't"
  trie_contains :: "string \<Rightarrow> 't \<Rightarrow> bool \<times> 't"
  trie_complete :: "string \<Rightarrow> int \<Rightarrow> 't \<Rightarrow> string list \<times> 't"
  trie_items :: "'t \<Rightarrow> (string \<times> 'w) list \<times> 't"
  trie_stats :: "'t \<Rightarrow> (nat \<times> nat \<times> nat) \<times> 't"

text \<open>
  A trie that also keeps the list of the method calls made on it, oldest first, around
  any implementation: it is how a statement about which calls the dispatcher makes, and
  with which arguments, is written. A new trie has no call yet.
\<close>

datatype 'w call =
    Insert string 'w
  | Remove string
  | Contains string
  | Complete string int
  | Items
  | Stats

definition logged :: "('t, 'w) trie_ops \<Rightarrow> ('t \<times> 'w call list, 'w) trie_ops" where
  "logged ops =
     \<lparr> trie_new = (trie_new ops, []),
       trie_insert = (\<lambda>w v (t, log). (trie_insert ops w v t, log @ [Insert w v])),
       trie_remove = (\<lambda>w (t, log).
          (fst (trie_remove ops w t), (snd (trie_remove ops w t), log @ [Remove w]))),
       trie_contains = (\<lambda>w (t, log).
          (fst (trie_contains ops w t), (snd (trie_contains ops w t), log @ [Contains w]))),
       trie_complete = (\<lambda>p k (t, log).
          (fst (trie_complete ops p k t), (snd (trie_complete ops p k t), log @ [Complete p k]))),
       trie_items = (\<lambda>(t, log).
          (fst (trie_items ops t), (snd (trie_items ops t), log @ [Items]))),
       trie_stats = (\<lambda>(t, log).
          (fst (trie_stats ops t), (snd (trie_stats ops t), log @ [Stats]))) \<rparr>"

text \<open>The string a call was given, if it takes one.\<close>

fun call_arg :: "'w call \<Rightarrow> string option" where
  "call_arg (Insert w v) = Some w"
| "call_arg (Remove w) = Some w"
| "call_arg (Contains w) = Some w"
| "call_arg (Complete p k) = Some p"
| "call_arg Items = None"
| "call_arg Stats = None"

section \<open>\<^verbatim>\<open>app.py\<close>\<close>

text \<open>
  Every command returns the state of the trie it leaves and the events it caused.
  \<^verbatim>\<open>load_command\<close> builds a new trie and leaves the one it was given as it is.
\<close>

fun insert_pairs :: "('t, 'w) trie_ops \<Rightarrow> (string \<times> 'w) list \<Rightarrow> 't \<Rightarrow> 't" where
  "insert_pairs ops [] new_trie = new_trie"
| "insert_pairs ops ((word, score) # pairs) new_trie =
     insert_pairs ops pairs (trie_insert ops word score new_trie)"

definition load_command :: "('w::zero) runtime \<Rightarrow> ('t, 'w) trie_ops \<Rightarrow> 't \<Rightarrow> string \<Rightarrow> 't \<times> 'w event list" where
  "load_command rt ops trie path_str =
     (let (pairs, out) = load_csv rt path_str;
          new_trie = trie_new ops
      in (insert_pairs ops pairs new_trie, out))"

definition save_command :: "'w runtime \<Rightarrow> ('t, 'w) trie_ops \<Rightarrow> 't \<Rightarrow> string \<Rightarrow> 't \<times> (error + 'w event list)" where
  "save_command rt ops trie path_str =
     (let (items, trie') = trie_items ops trie
      in (trie', save_csv rt path_str items))"

definition insert_command :: "'w runtime \<Rightarrow> ('t, 'w) trie_ops \<Rightarrow> 't \<Rightarrow> string \<Rightarrow> string \<Rightarrow> error + 't" where
  "insert_command rt ops trie word freq_str =
     (case py_float rt freq_str of
        None \<Rightarrow> Inl ValueError
      | Some freq \<Rightarrow> Inr (trie_insert ops (py_lower word) freq trie))"

definition remove_command :: "('t, 'w) trie_ops \<Rightarrow> 't \<Rightarrow> string \<Rightarrow> 't \<times> 'w event list" where
  "remove_command ops trie word =
     (let (ok, trie') = trie_remove ops (py_lower word) trie
      in (trie', [Stdout (if ok then ''OK'' else ''MISS'')]))"

definition contains_command :: "('t, 'w) trie_ops \<Rightarrow> 't \<Rightarrow> string \<Rightarrow> 't \<times> 'w event list" where
  "contains_command ops trie word =
     (let (found, trie') = trie_contains ops (py_lower word) trie
      in (trie', [Stdout (if found then ''YES'' else ''NO'')]))"

definition complete_command :: "'w runtime \<Rightarrow> ('t, 'w) trie_ops \<Rightarrow> 't \<Rightarrow> string \<Rightarrow> string \<Rightarrow> error + 't \<times> 'w event list" where
  "complete_command rt ops trie pfx k_str =
     (case py_int rt k_str of
        None \<Rightarrow> Inl ValueError
      | Some k \<Rightarrow>
          (let (results, trie') = trie_complete ops (py_lower pfx) k trie
           in Inr (trie', [Stdout (py_join '','' results)])))"

definition stats_command :: "('t, 'w) trie_ops \<Rightarrow> 't \<Rightarrow> 't \<times> 'w event list" where
  "stats_command ops trie =
     (let ((words, height, nodes), trie') = trie_stats ops trie
      in (trie', [Stdout (''words='' @ str_nat words @ '' height='' @ str_nat height
                          @ '' nodes='' @ str_nat nodes)]))"

text \<open>
  \<^verbatim>\<open>parse_and_execute(line, trie)\<close> returns \<^verbatim>\<open>(continue_loop, trie)\<close>; the model adds
  the events. Here the methods of the trie return: the only exception in the \<^verbatim>\<open>try\<close>
  statement is then the \<^verbatim>\<open>ValueError\<close> of \<^verbatim>\<open>float\<close>, of \<^verbatim>\<open>int\<close> or of writing the file. It
  is caught by the last \<^verbatim>\<open>except\<close> clause, after which the function returns
  \<^verbatim>\<open>True, trie\<close>. The clauses for \<^verbatim>\<open>FileNotFoundError\<close> and \<^verbatim>\<open>OSError\<close> are not entered:
  \<^verbatim>\<open>load_csv\<close> and \<^verbatim>\<open>save_csv\<close> catch those themselves.
\<close>

definition parse_and_execute :: "('w::zero) runtime \<Rightarrow> ('t, 'w) trie_ops \<Rightarrow> string \<Rightarrow> 't \<Rightarrow> bool \<times> 't \<times> 'w event list" where
  "parse_and_execute rt ops line0 trie =
     (let line = py_strip line0 in
      if line = [] then (True, trie, [])
      else
        let parts = py_split line in
        if parts = [] then (True, trie, [])
        else
          let cmd = py_lower (parts ! 0) in
          if cmd = ''quit'' then (False, trie, [])
          else if cmd = ''load'' \<and> length parts = 2 then
            (let (trie', out) = load_command rt ops trie (parts ! 1) in (True, trie', out))
          else if cmd = ''save'' \<and> length parts = 2 then
            (let (trie', saved) = save_command rt ops trie (parts ! 1)
             in case saved of
                  Inl ValueError \<Rightarrow> (True, trie', [])
                | Inr out \<Rightarrow> (True, trie', out))
          else if cmd = ''insert'' \<and> length parts = 3 then
            (case insert_command rt ops trie (parts ! 1) (parts ! 2) of
               Inl ValueError \<Rightarrow> (True, trie, [])
             | Inr trie' \<Rightarrow> (True, trie', []))
          else if cmd = ''remove'' \<and> length parts = 2 then
            (let (trie', out) = remove_command ops trie (parts ! 1) in (True, trie', out))
          else if cmd = ''contains'' \<and> length parts = 2 then
            (let (trie', out) = contains_command ops trie (parts ! 1) in (True, trie', out))
          else if cmd = ''complete'' \<and> length parts = 3 then
            (case complete_command rt ops trie (parts ! 1) (parts ! 2) of
               Inl ValueError \<Rightarrow> (True, trie, [])
             | Inr (trie', out) \<Rightarrow> (True, trie', out))
          else if cmd = ''stats'' \<and> length parts = 1 then
            (let (trie', out) = stats_command ops trie in (True, trie', out))
          else (True, trie, []))"

text \<open>
  The command table of the module docstring of \<^verbatim>\<open>app.py\<close>: the number of tokens of a
  line of each command, the command name included.
\<close>

definition command_arity :: "string \<Rightarrow> nat option" where
  "command_arity cmd =
     (if cmd = ''load'' then Some 2
      else if cmd = ''save'' then Some 2
      else if cmd = ''insert'' then Some 3
      else if cmd = ''remove'' then Some 2
      else if cmd = ''contains'' then Some 2
      else if cmd = ''complete'' then Some 3
      else if cmd = ''stats'' then Some 1
      else if cmd = ''quit'' then Some 1
      else None)"

section \<open>\<^verbatim>\<open>app.py\<close>, over a trie whose methods may raise\<close>

text \<open>
  The same functions, with the exceptions of the trie's methods explicit: they are what
  the \<^verbatim>\<open>except\<close> clauses of \<^verbatim>\<open>parse_and_execute\<close> are about.
\<close>

















section \<open>The prefix trie of the specification\<close>

text \<open>
  Modelled from the spec: \<^verbatim>\<open>src/trie.py\<close>, the module of the class \<^verbatim>\<open>Trie\<close>, is not
  among the source files. The definitions of this section follow sections 3 and 4.1 of
  the specification: a node has the fields \<open>is_word\<close>, \<open>weight\<close> and \<open>children\<close>; the
  children are kept as an association list in the order of their creation, with one
  entry per character.
\<close>

datatype 'w node = Node (is_word: bool) (weight: 'w) (children: "(char \<times> 'w node) list")

text \<open>A freshly constructed trie: the root alone.\<close>

definition pt_empty :: "('w::zero) node" where
  "pt_empty = Node False 0 []"

text \<open>One entry per character, at every node.\<close>

fun invar :: "'w node \<Rightarrow> bool" where
  "invar (Node b v cs) = (distinct (map fst cs) \<and> (\<forall>ch \<in> set (map snd cs). invar ch))"

text \<open>
  Modelled from the spec: \<^verbatim>\<open>insert\<close> walks or creates one node per character and, at
  the terminal node, sets \<open>is_word\<close> and overwrites the weight. For the empty word, which
  the specification leaves open, the terminal node is the root.
\<close>

fun pt_insert :: "string \<Rightarrow> 'w \<Rightarrow> ('w::zero) node \<Rightarrow> 'w node" where
  "pt_insert [] w (Node b v cs) = Node True w cs"
| "pt_insert (c # s) w (Node b v cs) =
     Node b v (AList.update c
       (pt_insert s w (case map_of cs c of None \<Rightarrow> Node False 0 [] | Some ch \<Rightarrow> ch)) cs)"

text \<open>The node at the end of a path from a node, if the path exists.\<close>

fun find_node :: "'w node \<Rightarrow> string \<Rightarrow> 'w node option" where
  "find_node n [] = Some n"
| "find_node n (c # s) =
     (case map_of (children n) c of None \<Rightarrow> None | Some ch \<Rightarrow> find_node ch s)"

text \<open>
  Modelled from the spec: \<^verbatim>\<open>contains\<close> is true iff the path exists and its terminal node
  has \<open>is_word\<close>.
\<close>

definition pt_contains :: "string \<Rightarrow> 'w node \<Rightarrow> bool" where
  "pt_contains word t = (case find_node t word of None \<Rightarrow> False | Some n \<Rightarrow> is_word n)"

text \<open>
  Every word reachable from a node, with its weight; \<open>p\<close> is the path from the root to
  the node.
\<close>

fun collect :: "string \<Rightarrow> 'w node \<Rightarrow> (string \<times> 'w) list" where
  "collect p (Node b v cs) =
     (if b then [(p, v)] else []) @ concat (map (\<lambda>(c, ch). collect (p @ [c]) ch) cs)"

text \<open>Modelled from the spec: \<^verbatim>\<open>items\<close> enumerates every stored pair.\<close>

definition pt_items :: "'w node \<Rightarrow> (string \<times> 'w) list" where
  "pt_items t = collect [] t"

text \<open>
  Modelled from the spec: the ranking of \<^verbatim>\<open>complete\<close>, descending weight first, then
  ascending lexicographic order of the word. \<open>rank\<close> sorts by insertion.
\<close>

definition outranks :: "string \<times> ('w::linorder) \<Rightarrow> string \<times> 'w \<Rightarrow> bool" where
  "outranks a b = (snd a > snd b \<or> (snd a = snd b \<and> fst a \<le> fst b))"

fun rank_insert :: "string \<times> ('w::linorder) \<Rightarrow> (string \<times> 'w) list \<Rightarrow> (string \<times> 'w) list" where
  "rank_insert x [] = [x]"
| "rank_insert x (y # ys) = (if outranks x y then x # y # ys else y # rank_insert x ys)"

fun rank :: "(string \<times> ('w::linorder)) list \<Rightarrow> (string \<times> 'w) list" where
  "rank [] = []"
| "rank (x # xs) = rank_insert x (rank xs)"

text \<open>
  Modelled from the spec: \<^verbatim>\<open>complete(prefix, k)\<close> locates the node at the end of the
  prefix, collects every word reachable from it, ranks them and returns at most \<open>k\<close>.
\<close>

definition pt_complete :: "string \<Rightarrow> int \<Rightarrow> ('w::linorder) node \<Rightarrow> string list" where
  "pt_complete p k t =
     (case find_node t p of
        None \<Rightarrow> []
      | Some n \<Rightarrow> map fst (take (nat k) (rank (collect p n))))"

text \<open>
  Modelled from the spec: \<^verbatim>\<open>remove\<close> unmarks the terminal node, clears its weight and
  prunes upward every node left with no child and no word; the root is never pruned.
\<close>

definition dead :: "'w node \<Rightarrow> bool" where
  "dead n = (\<not> is_word n \<and> children n = [])"

fun pt_remove :: "string \<Rightarrow> ('w::zero) node \<Rightarrow> bool \<times> 'w node" where
  "pt_remove [] (Node b v cs) = (if b then (True, Node False 0 cs) else (False, Node b v cs))"
| "pt_remove (c # s) (Node b v cs) =
     (case map_of cs c of
        None \<Rightarrow> (False, Node b v cs)
      | Some ch \<Rightarrow>
          (let (ok, ch') = pt_remove s ch in
           if \<not> ok then (False, Node b v cs)
           else if dead ch' then (True, Node b v (AList.delete c cs))
           else (True, Node b v (AList.update c ch' cs))))"

text \<open>Modelled from the spec: \<^verbatim>\<open>stats\<close> returns the word count, the height, the node count.\<close>

fun word_count :: "'w node \<Rightarrow> nat" where
  "word_count (Node b v cs) =
     (if b then 1 else 0) + sum_list (map (\<lambda>(c, ch). word_count ch) cs)"

fun node_count :: "'w node \<Rightarrow> nat" where
  "node_count (Node b v cs) = 1 + sum_list (map (\<lambda>(c, ch). node_count ch) cs)"

fun height :: "'w node \<Rightarrow> nat" where
  "height (Node b v cs) = fold max (map (\<lambda>(c, ch). 1 + height ch) cs) 0"

definition pt_stats :: "'w node \<Rightarrow> nat \<times> nat \<times> nat" where
  "pt_stats t = (word_count t, height t, node_count t)"

text \<open>The trie of the specification, as an implementation of the methods.\<close>

definition pt_ops :: "(('w::{zero,linorder}) node, 'w) trie_ops" where
  "pt_ops =
     \<lparr> trie_new = pt_empty,
       trie_insert = pt_insert,
       trie_remove = pt_remove,
       trie_contains = (\<lambda>w t. (pt_contains w t, t)),
       trie_complete = (\<lambda>p k t. (pt_complete p k t, t)),
       trie_items = (\<lambda>t. (pt_items t, t)),
       trie_stats = (\<lambda>t. (pt_stats t, t)) \<rparr>"

section \<open>A small interpreter for examples\<close>

text \<open>
  For the examples, numbers are integers written with decimal digits, with an optional
  minus sign for \<^verbatim>\<open>int\<close>; any other string is not a number.
\<close>

definition is_digit :: "char \<Rightarrow> bool" where
  "is_digit c = (let n = (of_char c :: nat) in 48 \<le> n \<and> n \<le> 57)"

definition digits_value :: "string \<Rightarrow> int" where
  "digits_value s = foldl (\<lambda>a c. 10 * a + (int (of_char c) - 48)) 0 s"

definition demo_number :: "string \<Rightarrow> int option" where
  "demo_number s =
     (if s \<noteq> [] \<and> list_all is_digit s then Some (digits_value s) else None)"

definition demo_int :: "string \<Rightarrow> int option" where
  "demo_int s =
     (case s of
        [] \<Rightarrow> None
      | c # r \<Rightarrow> (if c = CHR ''-'' then map_option uminus (demo_number r) else demo_number s))"

definition demo_rt :: "(string \<Rightarrow> read_outcome) \<Rightarrow> int runtime" where
  "demo_rt files =
     \<lparr> py_float = demo_number, py_int = demo_int, read_csv = files,
       can_write = (\<lambda>path. path \<noteq> ''/''),
       write_failure = (\<lambda>path. RaisesOSError) \<rparr>"

definition cat_car_can :: "int node" where
  "cat_car_can = pt_insert ''can'' 5 (pt_insert ''car'' 3 (pt_insert ''cat'' 5 pt_empty))"


section \<open>Notions used by the statements\<close>

text \<open>The calls logged on the trie that \<^verbatim>\<open>parse_and_execute\<close> returns.\<close>

definition log_of :: "bool \<times> ('t \<times> 'w call list) \<times> 'w event list \<Rightarrow> 'w call list" where
  "log_of r = snd (fst (snd r))"

text \<open>A call whose string argument, if it has one, is left as it is by \<^verbatim>\<open>str.lower\<close>.\<close>

definition lowercased :: "'w call \<Rightarrow> bool" where
  "lowercased call = (case call_arg call of None \<Rightarrow> True | Some w \<Rightarrow> py_lower w = w)"

text \<open>The stored pairs whose word has the prefix \<open>p\<close>, in the order of \<open>pt_items\<close>.\<close>

definition stored_with_prefix :: "string \<Rightarrow> 'w node \<Rightarrow> (string \<times> 'w) list" where
  "stored_with_prefix p t = filter (\<lambda>(w, v). prefix p w) (pt_items t)"

text \<open>
  A line that is not a well-formed command, by the command table of \<^verbatim>\<open>app.py\<close>: an
  empty line, an unknown command name, a number of tokens other than the command's, or
  an \<^verbatim>\<open>insert\<close> or \<^verbatim>\<open>complete\<close> whose last argument is not a number.
\<close>

definition not_well_formed :: "('w::zero) runtime \<Rightarrow> string \<Rightarrow> bool" where
  "not_well_formed rt line =
     (case py_split (py_strip line) of
        [] \<Rightarrow> True
      | c # args \<Rightarrow>
          (case command_arity (py_lower c) of
             None \<Rightarrow> True
           | Some n \<Rightarrow>
               length (c # args) \<noteq> n
               \<or> (py_lower c = ''insert'' \<and> py_float rt ((c # args) ! 2) = None)
               \<or> (py_lower c = ''complete'' \<and> py_int rt ((c # args) ! 2) = None)))"

section \<open>Properties of the string functions\<close>

lemma lower_char_not_upper: "\<not> is_upper (lower_char c)"
  by (simp add: lower_char_def is_upper_def Let_def)

lemma py_lower_no_upper: "\<forall>c \<in> set (py_lower s). \<not> is_upper c"
  by (simp add: py_lower_def lower_char_not_upper)

lemma lower_char_idem: "lower_char (lower_char c) = lower_char c"
  using lower_char_not_upper [of c] by (simp add: lower_char_def)

lemma py_lower_idem: "py_lower (py_lower s) = py_lower s"
  by (simp add: py_lower_def lower_char_idem)

lemma py_lower_Nil_iff: "py_lower s = [] \<longleftrightarrow> s = []"
  by (simp add: py_lower_def)




lemma of_char_lower_char:
  "(of_char (lower_char c) :: nat) = (if is_upper c then of_char c + 32 else of_char c)"
  by (auto simp: lower_char_def is_upper_def Let_def)

lemma py_lower_pointwise:
  "length (py_lower s) = length s
   \<and> (\<forall>i < length s. (of_char (py_lower s ! i) :: nat) =
         (if is_upper (s ! i) then of_char (s ! i) + 32 else of_char (s ! i)))"
  by (simp add: py_lower_def of_char_lower_char)

section \<open>Properties of the loader\<close>

lemma load_rows_acc:
  "load_rows rt rows results =
     results @ map (\<lambda>row. (row_word row, row_score rt row)) (filter (\<lambda>row. row \<noteq> []) rows)"
  by (induction rows arbitrary: results) auto

lemma row_score_cases:
  "row_score rt (f # rest) =
     (case rest of
        [] \<Rightarrow> 0
      | s # others \<Rightarrow> (case py_float rt s of None \<Rightarrow> 0 | Some v \<Rightarrow> v))"
  by (simp add: row_score_def split: list.splits)

lemma load_csv_Rows:
  "read_csv rt path = Rows rows \<Longrightarrow> load_csv rt path = (load_rows rt rows [], [])"
  by (simp add: load_csv_def)






lemma row_score_tl:
  "row \<noteq> [] \<Longrightarrow> row_score rt row =
     (case tl row of
        [] \<Rightarrow> 0
      | s # others \<Rightarrow> (case py_float rt s of None \<Rightarrow> 0 | Some v \<Rightarrow> v))"
  by (cases row) (simp_all add: row_score_cases)

lemma load_rows_explicit:
  "load_rows rt rows [] =
     map (\<lambda>row. (py_lower (py_strip (hd row)),
                  case tl row of
                    [] \<Rightarrow> 0
                  | s # others \<Rightarrow> (case py_float rt s of None \<Rightarrow> 0 | Some v \<Rightarrow> v)))
       (filter (\<lambda>row. row \<noteq> []) rows)"
  unfolding load_rows_acc append_Nil
  by (rule map_cong) (auto simp: row_word_def row_score_tl)

lemma load_csv_words:
  assumes "read_csv rt path = Rows rows"
  shows "map fst (fst (load_csv rt path)) =
           map (\<lambda>row. py_lower (py_strip (hd row))) (filter (\<lambda>row. row \<noteq> []) rows)"
  by (simp add: load_csv_Rows [OF assms] load_rows_explicit comp_def)

section \<open>Properties of the dispatcher\<close>

lemma split_nonempty_line: "py_split (py_strip line) = c # args \<Longrightarrow> py_strip line \<noteq> []"
  by (auto simp: py_split_def)

lemma parse_remove:
  assumes "py_split (py_strip line) = [c, w]" "py_lower c = ''remove''"
  shows "parse_and_execute rt ops line t =
           (True, fst (remove_command ops t w), snd (remove_command ops t w))"
  using assms split_nonempty_line [OF assms(1)]
  by (simp add: parse_and_execute_def Let_def split: prod.splits)

lemma parse_contains:
  assumes "py_split (py_strip line) = [c, w]" "py_lower c = ''contains''"
  shows "parse_and_execute rt ops line t =
           (True, fst (contains_command ops t w), snd (contains_command ops t w))"
  using assms split_nonempty_line [OF assms(1)]
  by (simp add: parse_and_execute_def Let_def split: prod.splits)

lemma parse_load:
  assumes "py_split (py_strip line) = [c, p]" "py_lower c = ''load''"
  shows "parse_and_execute rt ops line t =
           (True, fst (load_command rt ops t p), snd (load_command rt ops t p))"
  using assms split_nonempty_line [OF assms(1)]
  by (simp add: parse_and_execute_def Let_def split: prod.splits)

lemma parse_save:
  assumes "py_split (py_strip line) = [c, p]" "py_lower c = ''save''"
  shows "parse_and_execute rt ops line t =
           (True, fst (save_command rt ops t p),
            case snd (save_command rt ops t p) of Inl e \<Rightarrow> [] | Inr out \<Rightarrow> out)"
  using assms split_nonempty_line [OF assms(1)]
  by (simp add: parse_and_execute_def Let_def split: prod.splits sum.splits error.splits)

lemma parse_insert:
  assumes "py_split (py_strip line) = [c, w, f]" "py_lower c = ''insert''"
  shows "parse_and_execute rt ops line t =
           (case insert_command rt ops t w f of
              Inl e \<Rightarrow> (True, t, [])
            | Inr t' \<Rightarrow> (True, t', []))"
  using assms split_nonempty_line [OF assms(1)]
  by (simp add: parse_and_execute_def Let_def split: prod.splits sum.splits error.splits)

lemma parse_complete:
  assumes "py_split (py_strip line) = [c, p, k]" "py_lower c = ''complete''"
  shows "parse_and_execute rt ops line t =
           (case complete_command rt ops t p k of
              Inl e \<Rightarrow> (True, t, [])
            | Inr r \<Rightarrow> (True, fst r, snd r))"
  using assms split_nonempty_line [OF assms(1)]
  by (simp add: parse_and_execute_def Let_def split: prod.splits sum.splits error.splits)

lemma write_rows_acc:
  "write_rows items written = written @ map (\<lambda>(word, score). [FStr word, FNum score]) items"
  by (induction items arbitrary: written) auto

lemma insert_pairs_foldl:
  "insert_pairs ops pairs t = foldl (\<lambda>tr (w, s). trie_insert ops w s tr) t pairs"
  by (induction pairs arbitrary: t) auto

lemma insert_pairs_logged:
  "insert_pairs (logged ops) pairs (t, log) =
     (insert_pairs ops pairs t, log @ map (\<lambda>(w, s). Insert w s) pairs)"
  by (induction pairs arbitrary: t log) (auto simp: logged_def)

lemma load_command_eq:
  "load_command rt ops t path =
     (insert_pairs ops (fst (load_csv rt path)) (trie_new ops), snd (load_csv rt path))"
  by (simp add: load_command_def split: prod.splits)

lemma trie_new_logged: "trie_new (logged ops) = (trie_new ops, [])"
  by (simp add: logged_def)

lemma malformed_not_quit:
  assumes "not_well_formed rt line"
    and "\<And>c args. py_split (py_strip line) = c # args \<Longrightarrow> py_lower c \<noteq> ''quit''"
  shows "parse_and_execute rt ops line t = (True, t, [])"
proof (cases "py_split (py_strip line)")
  case Nil
  then show ?thesis by (simp add: parse_and_execute_def Let_def)
next
  case (Cons c args)
  have ne: "py_strip line \<noteq> []" using Cons by (rule split_nonempty_line)
  have nq: "py_lower c \<noteq> ''quit''" using assms(2) Cons by simp
  show ?thesis
  proof (cases "command_arity (py_lower c)")
    case None
    then show ?thesis using Cons ne
      by (simp add: parse_and_execute_def Let_def command_arity_def split: if_splits)
  next
    case (Some n)
    have bad: "length (c # args) \<noteq> n
               \<or> (py_lower c = ''insert'' \<and> py_float rt ((c # args) ! 2) = None)
               \<or> (py_lower c = ''complete'' \<and> py_int rt ((c # args) ! 2) = None)"
      using assms(1) Cons Some by (simp add: not_well_formed_def)
    show ?thesis using Cons ne nq Some bad
      by (auto simp: parse_and_execute_def Let_def command_arity_def insert_command_def
          complete_command_def split: if_splits)
  qed
qed

lemma logged_insert: "trie_insert (logged ops) w v (t, log) = (trie_insert ops w v t, log @ [Insert w v])"
  by (simp add: logged_def)

lemma logged_remove:
  "trie_remove (logged ops) w (t, log) =
     (fst (trie_remove ops w t), (snd (trie_remove ops w t), log @ [Remove w]))"
  by (simp add: logged_def)

lemma logged_contains:
  "trie_contains (logged ops) w (t, log) =
     (fst (trie_contains ops w t), (snd (trie_contains ops w t), log @ [Contains w]))"
  by (simp add: logged_def)

lemma logged_complete:
  "trie_complete (logged ops) p k (t, log) =
     (fst (trie_complete ops p k t), (snd (trie_complete ops p k t), log @ [Complete p k]))"
  by (simp add: logged_def)

lemma logged_items:
  "trie_items (logged ops) (t, log) =
     (fst (trie_items ops t), (snd (trie_items ops t), log @ [Items]))"
  by (simp add: logged_def)

lemma logged_stats:
  "trie_stats (logged ops) (t, log) =
     (fst (trie_stats ops t), (snd (trie_stats ops t), log @ [Stats]))"
  by (simp add: logged_def)

lemma insert_call:
  assumes "py_split (py_strip line) = [c, w, f]" "py_lower c = ''insert''" "py_float rt f = Some v"
  shows "log_of (parse_and_execute rt (logged ops) line (t, log)) = log @ [Insert (py_lower w) v]"
  using assms(3)
  by (simp add: parse_insert [OF assms(1,2)] insert_command_def logged_insert log_of_def)

lemma remove_call:
  assumes "py_split (py_strip line) = [c, w]" "py_lower c = ''remove''"
  shows "log_of (parse_and_execute rt (logged ops) line (t, log)) = log @ [Remove (py_lower w)]"
  by (simp add: parse_remove [OF assms] remove_command_def logged_remove log_of_def)

lemma contains_call:
  assumes "py_split (py_strip line) = [c, w]" "py_lower c = ''contains''"
  shows "log_of (parse_and_execute rt (logged ops) line (t, log)) = log @ [Contains (py_lower w)]"
  by (simp add: parse_contains [OF assms] contains_command_def logged_contains log_of_def)

lemma complete_call:
  assumes "py_split (py_strip line) = [c, p, ks]" "py_lower c = ''complete''" "py_int rt ks = Some k"
  shows "log_of (parse_and_execute rt (logged ops) line (t, log)) = log @ [Complete (py_lower p) k]"
  using assms(3)
  by (simp add: parse_complete [OF assms(1,2)] complete_command_def logged_complete log_of_def)

lemma load_calls:
  assumes "py_split (py_strip line) = [c, p]" "py_lower c = ''load''"
  shows "log_of (parse_and_execute rt (logged ops) line (t, log)) =
           map (\<lambda>(w, s). Insert w s) (fst (load_csv rt p))"
  by (simp add: parse_load [OF assms] load_command_eq insert_pairs_logged trie_new_logged log_of_def)

lemma load_calls_rows:
  assumes "py_split (py_strip line) = [c, p]" "py_lower c = ''load''" "read_csv rt p = Rows rows"
  shows "log_of (parse_and_execute rt (logged ops) line (t, log)) =
           map (\<lambda>row. Insert (py_lower (py_strip (hd row)))
                  (case tl row of
                     [] \<Rightarrow> 0
                   | s # others \<Rightarrow> (case py_float rt s of None \<Rightarrow> 0 | Some v \<Rightarrow> v)))
             (filter (\<lambda>row. row \<noteq> []) rows)"
  by (simp add: load_calls [OF assms(1,2)] load_csv_Rows [OF assms(3)] load_rows_explicit comp_def)

lemma load_csv_words_lower: "(w, s) \<in> set (fst (load_csv rt p)) \<Longrightarrow> py_lower w = w"
  by (auto simp: load_csv_def load_rows_acc row_word_def py_lower_idem split: read_outcome.splits)


lemma remove_command_logged:
  "remove_command (logged ops) (t, log) w =
     ((snd (trie_remove ops (py_lower w) t), log @ [Remove (py_lower w)]),
      [Stdout (if fst (trie_remove ops (py_lower w) t) then ''OK'' else ''MISS'')])"
  by (simp add: remove_command_def logged_remove)

lemma contains_command_logged:
  "contains_command (logged ops) (t, log) w =
     ((snd (trie_contains ops (py_lower w) t), log @ [Contains (py_lower w)]),
      [Stdout (if fst (trie_contains ops (py_lower w) t) then ''YES'' else ''NO'')])"
  by (simp add: contains_command_def logged_contains)

lemma save_command_logged:
  "fst (save_command rt (logged ops) (t, log) p) = (snd (trie_items ops t), log @ [Items])"
  by (simp add: save_command_def logged_items)

lemma stats_command_logged:
  "fst (stats_command (logged ops) (t, log)) = (snd (trie_stats ops t), log @ [Stats])"
  by (simp add: stats_command_def logged_stats split: prod.splits)

lemma insert_command_logged:
  "insert_command rt (logged ops) (t, log) w f =
     (case py_float rt f of
        None \<Rightarrow> Inl ValueError
      | Some v \<Rightarrow> Inr (trie_insert ops (py_lower w) v t, log @ [Insert (py_lower w) v]))"
  by (simp add: insert_command_def logged_insert split: option.splits)

lemma complete_command_logged:
  "complete_command rt (logged ops) (t, log) p ks =
     (case py_int rt ks of
        None \<Rightarrow> Inl ValueError
      | Some k \<Rightarrow>
          Inr ((snd (trie_complete ops (py_lower p) k t), log @ [Complete (py_lower p) k]),
               [Stdout (py_join '','' (fst (trie_complete ops (py_lower p) k t)))]))"
  by (simp add: complete_command_def logged_complete split: option.splits)

lemma load_command_logged:
  "fst (load_command rt (logged ops) (t, log) p) =
     (insert_pairs ops (fst (load_csv rt p)) (trie_new ops),
      map (\<lambda>(w, s). Insert w s) (fst (load_csv rt p)))"
  by (simp add: load_command_eq insert_pairs_logged trie_new_logged)

lemma lowercased_simps:
  "lowercased (Insert (py_lower w) v)" "lowercased (Remove (py_lower w))"
  "lowercased (Contains (py_lower w))" "lowercased (Complete (py_lower w) k)"
  "lowercased Items" "lowercased Stats"
  by (simp_all add: lowercased_def py_lower_idem)

lemma loaded_lowercased:
  "call \<in> set (map (\<lambda>(w, s). Insert w s) (fst (load_csv rt p))) \<Longrightarrow> lowercased call"
  by (auto simp: lowercased_def dest: load_csv_words_lower)

lemma parse_blank:
  "py_split (py_strip line) = [] \<Longrightarrow> parse_and_execute rt ops line t = (True, t, [])"
  by (simp add: parse_and_execute_def Let_def)

lemma parse_quit:
  assumes "py_split (py_strip line) = c # args" and "py_lower c = ''quit''"
  shows "parse_and_execute rt ops line t = (False, t, [])"
  using assms split_nonempty_line [OF assms(1)]
  by (simp add: parse_and_execute_def Let_def)

lemma parse_stats:
  assumes "py_split (py_strip line) = [c]" "py_lower c = ''stats''"
  shows "parse_and_execute rt ops line t =
           (True, fst (stats_command ops t), snd (stats_command ops t))"
  using assms split_nonempty_line [OF assms(1)]
  by (simp add: parse_and_execute_def Let_def split: prod.splits)

lemma parse_other:
  assumes "py_split (py_strip line) = c # args"
    and "py_lower c \<noteq> ''quit''"
    and "py_lower c = ''load'' \<longrightarrow> length args \<noteq> 1"
    and "py_lower c = ''save'' \<longrightarrow> length args \<noteq> 1"
    and "py_lower c = ''insert'' \<longrightarrow> length args \<noteq> 2"
    and "py_lower c = ''remove'' \<longrightarrow> length args \<noteq> 1"
    and "py_lower c = ''contains'' \<longrightarrow> length args \<noteq> 1"
    and "py_lower c = ''complete'' \<longrightarrow> length args \<noteq> 2"
    and "py_lower c = ''stats'' \<longrightarrow> length args \<noteq> 0"
  shows "parse_and_execute rt ops line t = (True, t, [])"
proof -
  have "not_well_formed rt line"
    using assms by (simp add: not_well_formed_def command_arity_def)
  moreover have "\<And>c' args'. py_split (py_strip line) = c' # args' \<Longrightarrow> py_lower c' \<noteq> ''quit''"
    using assms(1,2) by simp
  ultimately show ?thesis by (rule malformed_not_quit)
qed

lemma length1: "length xs = 1 \<Longrightarrow> \<exists>a. xs = [a]"
  by (cases xs) auto

lemma length2: "length xs = 2 \<Longrightarrow> \<exists>a b. xs = [a, b]"
  by (cases xs; cases "tl xs") auto


lemma log_caseI:
  "lowercased call \<Longrightarrow> r = log @ [call] \<Longrightarrow>
     r = log \<or> (\<exists>p. r = map (\<lambda>(w, s). Insert w s) (fst (load_csv rt p)))
     \<or> (\<exists>call. lowercased call \<and> r = log @ [call])"
  by blast

lemma log_of_cases:
  "log_of (parse_and_execute rt (logged ops) line (t, log)) = log
   \<or> (\<exists>p. log_of (parse_and_execute rt (logged ops) line (t, log)) =
            map (\<lambda>(w, s). Insert w s) (fst (load_csv rt p)))
   \<or> (\<exists>call. lowercased call \<and>
            log_of (parse_and_execute rt (logged ops) line (t, log)) = log @ [call])"
proof (cases "py_split (py_strip line)")
  case Nil
  then show ?thesis by (simp add: parse_blank log_of_def)
next
  case (Cons c args)
  let ?r = "log_of (parse_and_execute rt (logged ops) line (t, log))"
  consider (quit) "py_lower c = ''quit''"
    | (load) "py_lower c = ''load''" "length args = 1"
    | (save) "py_lower c = ''save''" "length args = 1"
    | (insert) "py_lower c = ''insert''" "length args = 2"
    | (remove) "py_lower c = ''remove''" "length args = 1"
    | (contains) "py_lower c = ''contains''" "length args = 1"
    | (complete) "py_lower c = ''complete''" "length args = 2"
    | (stats) "py_lower c = ''stats''" "length args = 0"
    | (other) "py_lower c \<noteq> ''quit''"
        "py_lower c = ''load'' \<longrightarrow> length args \<noteq> 1"
        "py_lower c = ''save'' \<longrightarrow> length args \<noteq> 1"
        "py_lower c = ''insert'' \<longrightarrow> length args \<noteq> 2"
        "py_lower c = ''remove'' \<longrightarrow> length args \<noteq> 1"
        "py_lower c = ''contains'' \<longrightarrow> length args \<noteq> 1"
        "py_lower c = ''complete'' \<longrightarrow> length args \<noteq> 2"
        "py_lower c = ''stats'' \<longrightarrow> length args \<noteq> 0"
    by blast
  then show ?thesis
  proof cases
    case quit
    have "?r = log" by (simp add: parse_quit [OF Cons quit] log_of_def)
    then show ?thesis by (rule disjI1)
  next
    case load
    then obtain p where p: "args = [p]" using length1 by blast
    have sp: "py_split (py_strip line) = [c, p]" using Cons p by simp
    have "?r = map (\<lambda>(w, s). Insert w s) (fst (load_csv rt p))"
      by (rule load_calls [OF sp load(1)])
    then show ?thesis by blast
  next
    case save
    then obtain p where p: "args = [p]" using length1 by blast
    have sp: "py_split (py_strip line) = [c, p]" using Cons p by simp
    have "?r = log @ [Items]"
      by (simp add: parse_save [OF sp save(1)] log_of_def save_command_logged)
    then show ?thesis by (rule log_caseI [OF lowercased_simps(5)])
  next
    case insert
    then obtain w f where wf: "args = [w, f]" using length2 by blast
    have sp: "py_split (py_strip line) = [c, w, f]" using Cons wf by simp
    show ?thesis
    proof (cases "py_float rt f")
      case None
      have "?r = log"
        by (simp add: parse_insert [OF sp insert(1)] insert_command_logged None log_of_def)
      then show ?thesis by (rule disjI1)
    next
      case (Some v)
      have "?r = log @ [Insert (py_lower w) v]"
        by (rule insert_call [OF sp insert(1) Some])
      then show ?thesis by (rule log_caseI [OF lowercased_simps(1)])
    qed
  next
    case remove
    then obtain w where w: "args = [w]" using length1 by blast
    have sp: "py_split (py_strip line) = [c, w]" using Cons w by simp
    have "?r = log @ [Remove (py_lower w)]"
      by (rule remove_call [OF sp remove(1)])
    then show ?thesis by (rule log_caseI [OF lowercased_simps(2)])
  next
    case contains
    then obtain w where w: "args = [w]" using length1 by blast
    have sp: "py_split (py_strip line) = [c, w]" using Cons w by simp
    have "?r = log @ [Contains (py_lower w)]"
      by (rule contains_call [OF sp contains(1)])
    then show ?thesis by (rule log_caseI [OF lowercased_simps(3)])
  next
    case complete
    then obtain p ks where pk: "args = [p, ks]" using length2 by blast
    have sp: "py_split (py_strip line) = [c, p, ks]" using Cons pk by simp
    show ?thesis
    proof (cases "py_int rt ks")
      case None
      have "?r = log"
        by (simp add: parse_complete [OF sp complete(1)] complete_command_logged None log_of_def)
      then show ?thesis by (rule disjI1)
    next
      case (Some k)
      have "?r = log @ [Complete (py_lower p) k]"
        by (rule complete_call [OF sp complete(1) Some])
      then show ?thesis by (rule log_caseI [OF lowercased_simps(4)])
    qed
  next
    case stats
    then have sp: "py_split (py_strip line) = [c]" using Cons by simp
    have "?r = log @ [Stats]"
      by (simp add: parse_stats [OF sp stats(1)] log_of_def stats_command_logged)
    then show ?thesis by (rule log_caseI [OF lowercased_simps(6)])
  next
    case other
    have "parse_and_execute rt (logged ops) line (t, log) = (True, (t, log), [])"
      by (rule parse_other [OF Cons other])
    then have "?r = log" by (simp add: log_of_def)
    then show ?thesis by (rule disjI1)
  qed
qed

lemma all_calls_lowercased:
  assumes "call \<in> set (log_of (parse_and_execute rt (logged ops) line (t, log)))"
  shows "call \<in> set log \<or> lowercased call"
proof -
  let ?r = "log_of (parse_and_execute rt (logged ops) line (t, log))"
  consider "?r = log"
    | p where "?r = map (\<lambda>(w, s). Insert w s) (fst (load_csv rt p))"
    | c where "lowercased c" "?r = log @ [c]"
    using log_of_cases [of rt ops line t log] by blast
  then show ?thesis
  proof cases
    case 1
    then show ?thesis using assms by simp
  next
    case 2
    then show ?thesis using assms loaded_lowercased [of call rt p] by simp
  next
    case 3
    then show ?thesis using assms by auto
  qed
qed


lemma py_strip_Nil_iff: "py_strip s = [] \<longleftrightarrow> list_all is_space s"
proof
  assume "py_strip s = []"
  then have a: "\<forall>x \<in> set (dropWhile is_space s). is_space x"
    by (simp add: py_strip_def dropWhile_eq_Nil_conv)
  have "dropWhile is_space s = []"
  proof (rule ccontr)
    assume ne: "dropWhile is_space s \<noteq> []"
    then have "\<not> is_space (hd (dropWhile is_space s))" by (rule hd_dropWhile)
    moreover have "hd (dropWhile is_space s) \<in> set (dropWhile is_space s)" using ne by simp
    ultimately show False using a by blast
  qed
  then show "list_all is_space s" by (simp add: dropWhile_eq_Nil_conv list_all_iff)
next
  assume "list_all is_space s"
  then have "dropWhile is_space s = []" by (simp add: dropWhile_eq_Nil_conv list_all_iff)
  then show "py_strip s = []" unfolding py_strip_def by (simp only: rev.simps dropWhile.simps)
qed

section \<open>Properties of the dispatcher over methods that may raise\<close>












section \<open>Properties of the prefix trie\<close>

lemma outranks_total: "\<not> outranks a b \<Longrightarrow> outranks b a"
  by (auto simp: outranks_def)

lemma outranks_trans: "outranks a b \<Longrightarrow> outranks b c \<Longrightarrow> outranks a c"
  by (auto simp: outranks_def)

lemma set_rank_insert: "set (rank_insert x xs) = insert x (set xs)"
  by (induction xs) auto

lemma mset_rank_insert: "mset (rank_insert x xs) = add_mset x (mset xs)"
  by (induction xs) auto

lemma mset_rank: "mset (rank xs) = mset xs"
  by (induction xs) (auto simp: mset_rank_insert)

lemma sorted_rank_insert:
  "sorted_wrt outranks xs \<Longrightarrow> sorted_wrt outranks (rank_insert x xs)"
proof (induction xs)
  case Nil
  then show ?case by simp
next
  case (Cons y ys)
  show ?case
  proof (cases "outranks x y")
    case True
    then show ?thesis using Cons.prems by (auto intro: outranks_trans)
  next
    case False
    then have "outranks y x" by (rule outranks_total)
    then show ?thesis using False Cons by (auto simp: set_rank_insert)
  qed
qed

lemma sorted_rank: "sorted_wrt outranks (rank xs)"
  by (induction xs) (auto simp: sorted_rank_insert)

lemma collect_prefix: "(w, v) \<in> set (collect p n) \<Longrightarrow> prefix p w"
proof (induction p n arbitrary: w v rule: collect.induct)
  case (1 p b v' cs)
  from "1.prems" consider "w = p" | c ch where "(c, ch) \<in> set cs" "(w, v) \<in> set (collect (p @ [c]) ch)"
    by (auto split: if_splits)
  then show ?case
  proof cases
    case 1
    then show ?thesis by simp
  next
    case 2
    then have "prefix (p @ [c]) w" using "1.IH" by blast
    then show ?thesis by (rule append_prefixD)
  qed
qed

lemma collect_find:
  "(w, v) \<in> set (collect p n) \<Longrightarrow> invar n \<Longrightarrow>
     \<exists>s m. w = p @ s \<and> find_node n s = Some m \<and> is_word m \<and> weight m = v"
proof (induction p n arbitrary: w v rule: collect.induct)
  case (1 p b v' cs)
  from "1.prems"(1) consider "w = p" "b" "v = v'"
    | c ch where "(c, ch) \<in> set cs" "(w, v) \<in> set (collect (p @ [c]) ch)"
    by (auto split: if_splits)
  then show ?case
  proof cases
    case 1
    then have "w = p @ [] \<and> find_node (Node b v' cs) [] = Some (Node b v' cs)
        \<and> is_word (Node b v' cs) \<and> weight (Node b v' cs) = v" by simp
    then show ?thesis by blast
  next
    case 2
    have inv: "invar ch" using "1.prems"(2) 2(1) by force
    obtain s m where sm: "w = (p @ [c]) @ s" "find_node ch s = Some m" "is_word m" "weight m = v"
      using "1.IH" [OF 2(1) refl 2(2) inv] by blast
    have "map_of cs c = Some ch" using "1.prems"(2) 2(1) by simp
    then have "w = p @ (c # s) \<and> find_node (Node b v' cs) (c # s) = Some m \<and> is_word m \<and> weight m = v"
      using sm by simp
    then show ?thesis by blast
  qed
qed

lemma find_collect:
  "find_node n s = Some m \<Longrightarrow> is_word m \<Longrightarrow> (p @ s, weight m) \<in> set (collect p n)"
proof (induction s arbitrary: p n)
  case Nil
  then show ?case by (cases n) auto
next
  case (Cons c s)
  obtain b v cs where n: "n = Node b v cs" by (cases n)
  from Cons.prems(1) n obtain ch where ch: "map_of cs c = Some ch" "find_node ch s = Some m"
    by (auto split: option.splits)
  have "((p @ [c]) @ s, weight m) \<in> set (collect (p @ [c]) ch)"
    using Cons.IH [OF ch(2) Cons.prems(2)] .
  moreover have "(c, ch) \<in> set cs" using ch(1) by (rule map_of_SomeD)
  ultimately show ?case using n by force
qed


lemma invar_empty: "invar pt_empty"
  by (simp add: pt_empty_def)

lemma snd_update_subset: "snd ` set (AList.update c x cs) \<subseteq> insert x (snd ` set cs)"
  by (induction cs) auto

lemma snd_delete_subset: "snd ` set (AList.delete c cs) \<subseteq> snd ` set cs"
  by (auto simp: AList.delete_eq)

lemma invar_update:
  assumes "distinct (map fst cs)" and "\<forall>ch \<in> set (map snd cs). invar ch" and "invar x"
  shows "invar (Node b v (AList.update c x cs))"
proof -
  have d: "distinct (map fst (AList.update c x cs))" using assms(1) by (rule distinct_update)
  have "\<forall>ch \<in> set (map snd (AList.update c x cs)). invar ch"
    using snd_update_subset [of c x cs] assms(2,3) unfolding set_map by blast
  then show ?thesis using d by (simp only: invar.simps simp_thms)
qed

lemma invar_delete:
  assumes "distinct (map fst cs)" and "\<forall>ch \<in> set (map snd cs). invar ch"
  shows "invar (Node b v (AList.delete c cs))"
proof -
  have d: "distinct (map fst (AList.delete c cs))" using assms(1) by (rule distinct_delete)
  have "\<forall>ch \<in> set (map snd (AList.delete c cs)). invar ch"
    using snd_delete_subset [of c cs] assms(2) unfolding set_map by blast
  then show ?thesis using d by (simp only: invar.simps simp_thms)
qed

lemma invar_children: "invar (Node b v cs) \<Longrightarrow> map_of cs c = Some ch \<Longrightarrow> invar ch"
proof -
  assume i: "invar (Node b v cs)" and m: "map_of cs c = Some ch"
  from m have "(c, ch) \<in> set cs" by (rule map_of_SomeD)
  then have "ch \<in> set (map snd cs)" by force
  then show "invar ch" using i unfolding invar.simps by blast
qed

lemma invar_insert: "invar t \<Longrightarrow> invar (pt_insert w v t)"
proof (induction w arbitrary: t)
  case Nil
  then show ?case by (cases t) simp
next
  case (Cons c w)
  obtain b v' cs where t: "t = Node b v' cs" by (cases t)
  let ?ch = "case map_of cs c of None \<Rightarrow> Node False 0 [] | Some ch \<Rightarrow> ch"
  have "invar ?ch"
  proof (cases "map_of cs c")
    case None
    then show ?thesis by simp
  next
    case (Some ch)
    then show ?thesis using invar_children [of b v' cs c ch] Cons.prems t by simp
  qed
  then have x: "invar (pt_insert w v ?ch)" by (rule Cons.IH)
  have d: "distinct (map fst cs)" and k: "\<forall>ch \<in> set (map snd cs). invar ch"
    using Cons.prems unfolding t invar.simps by blast+
  have "invar (Node b v' (AList.update c (pt_insert w v ?ch) cs))"
    using d k x by (rule invar_update)
  then show ?case unfolding t by (simp only: pt_insert.simps)
qed

lemma invar_remove: "invar t \<Longrightarrow> invar (snd (pt_remove w t))"
proof (induction w arbitrary: t)
  case Nil
  then show ?case by (cases t) simp
next
  case (Cons c w)
  obtain b v' cs where t: "t = Node b v' cs" by (cases t)
  have d: "distinct (map fst cs)" and k: "\<forall>ch \<in> set (map snd cs). invar ch"
    using Cons.prems unfolding t invar.simps by blast+
  show ?case
  proof (cases "map_of cs c")
    case None
    then show ?thesis using Cons.prems t by simp
  next
    case (Some ch)
    then have "invar ch" using invar_children [of b v' cs c ch] Cons.prems t by simp
    then have x: "invar (snd (pt_remove w ch))" by (rule Cons.IH)
    have u: "invar (Node b v' (AList.update c (snd (pt_remove w ch)) cs))"
      using d k x by (rule invar_update)
    have dl: "invar (Node b v' (AList.delete c cs))"
      using d k by (rule invar_delete)
    obtain ok ch' where r: "pt_remove w ch = (ok, ch')" by (cases "pt_remove w ch")
    have "snd (pt_remove (c # w) (Node b v' cs)) =
        (if \<not> ok then Node b v' cs
         else if dead ch' then Node b v' (AList.delete c cs)
         else Node b v' (AList.update c ch' cs))"
      using Some r by simp
    then show ?thesis using u dl Cons.prems t r by simp
  qed
qed

lemma concat_select:
  "distinct (map fst cs) \<Longrightarrow>
     concat (map (\<lambda>(c', ch). if c' = c then g ch else []) cs) =
       (case map_of cs c of None \<Rightarrow> [] | Some ch \<Rightarrow> g ch)"
proof (induction cs)
  case Nil
  then show ?case by simp
next
  case (Cons x cs)
  obtain k ch where x: "x = (k, ch)" by (cases x)
  show ?case
  proof (cases "k = c")
    case True
    then have "c \<notin> fst ` set cs" using Cons.prems x by auto
    then have "map_of cs c = None" by (simp add: map_of_eq_None_iff)
    then have "concat (map (\<lambda>(c', ch). if c' = c then g ch else []) cs) = []"
      using Cons by simp
    then show ?thesis using True x by simp
  next
    case False
    then show ?thesis using Cons x by simp
  qed
qed

lemma prefix_same_position:
  "prefix (p @ [c']) w \<Longrightarrow> prefix (p @ c # q) w \<Longrightarrow> c' = c"
  by (auto simp: prefix_def)

lemma collect_filter:
  "invar n \<Longrightarrow>
     filter (\<lambda>(w, v). prefix (p @ q) w) (collect p n) =
       (case find_node n q of None \<Rightarrow> [] | Some m \<Rightarrow> collect (p @ q) m)"
proof (induction q arbitrary: p n)
  case Nil
  have "filter (\<lambda>(w, v). prefix p w) (collect p n) = collect p n"
    by (rule filter_True) (auto dest: collect_prefix)
  then show ?case by simp
next
  case (Cons c q)
  obtain b v cs where n: "n = Node b v cs" by (cases n)
  let ?P = "\<lambda>(w, v). prefix (p @ c # q) w"
  let ?g = "\<lambda>ch. case find_node ch q of None \<Rightarrow> [] | Some m \<Rightarrow> collect (p @ c # q) m"
  have own: "filter ?P (if b then [(p, v)] else []) = []"
    by (auto simp: prefix_def)
  have child: "filter ?P (collect (p @ [c']) ch) = (if c' = c then ?g ch else [])"
    if mem: "(c', ch) \<in> set cs" for c' ch
  proof (cases "c' = c")
    case True
    have inv: "invar ch" using Cons.prems n mem by force
    have "filter (\<lambda>(w, v). prefix ((p @ [c]) @ q) w) (collect (p @ [c]) ch) =
        (case find_node ch q of None \<Rightarrow> [] | Some m \<Rightarrow> collect ((p @ [c]) @ q) m)"
      by (rule Cons.IH [OF inv])
    then show ?thesis using True by (simp split: option.splits)
  next
    case False
    have "filter ?P (collect (p @ [c']) ch) = []"
    proof (rule filter_False, clarify)
      fix w v'
      assume a: "(w, v') \<in> set (collect (p @ [c']) ch)" and b: "prefix (p @ c # q) w"
      from a have "prefix (p @ [c']) w" by (rule collect_prefix)
      then have "c' = c" using b by (rule prefix_same_position)
      then show False using False by simp
    qed
    then show ?thesis using False by simp
  qed
  have "filter ?P (concat (map (\<lambda>(c', ch). collect (p @ [c']) ch) cs)) =
      concat (map (\<lambda>(c', ch). if c' = c then ?g ch else []) cs)"
    unfolding filter_concat map_map
    by (rule arg_cong [where f = concat], rule map_cong) (auto simp: child)
  also have "\<dots> = (case map_of cs c of None \<Rightarrow> [] | Some ch \<Rightarrow> ?g ch)"
    using Cons.prems n by (intro concat_select) simp
  finally have kids: "filter ?P (concat (map (\<lambda>(c', ch). collect (p @ [c']) ch) cs)) =
      (case map_of cs c of None \<Rightarrow> [] | Some ch \<Rightarrow> ?g ch)" .
  show ?case
    unfolding n collect.simps filter_append own kids
    by (simp split: option.splits)
qed

lemma set_rank: "set (rank xs) = set xs"
  using mset_rank [of xs] by (metis set_mset_mset)

lemma stored_with_prefix_find:
  "invar t \<Longrightarrow> stored_with_prefix p t =
     (case find_node t p of None \<Rightarrow> [] | Some n \<Rightarrow> collect p n)"
  using collect_filter [of t "[]" p]
  by (simp add: stored_with_prefix_def pt_items_def split: option.splits)

lemma pt_complete_ranked:
  "invar t \<Longrightarrow> pt_complete p k t = map fst (take (nat k) (rank (stored_with_prefix p t)))"
  by (simp add: stored_with_prefix_find pt_complete_def split: option.splits)

lemma stored_iff:
  assumes "invar t"
  shows "(w, v) \<in> set (pt_items t) \<longleftrightarrow>
           (\<exists>m. find_node t w = Some m \<and> is_word m \<and> weight m = v)"
proof
  assume "(w, v) \<in> set (pt_items t)"
  then show "\<exists>m. find_node t w = Some m \<and> is_word m \<and> weight m = v"
    using collect_find [of w v "[]" t] assms by (simp add: pt_items_def)
next
  assume "\<exists>m. find_node t w = Some m \<and> is_word m \<and> weight m = v"
  then obtain m where "find_node t w = Some m" "is_word m" "weight m = v" by blast
  then show "(w, v) \<in> set (pt_items t)"
    using find_collect [of t w m "[]"] by (simp add: pt_items_def)
qed

lemma pt_complete_members:
  assumes "invar t" and "w \<in> set (pt_complete p k t)"
  shows "prefix p w \<and> pt_contains w t"
proof -
  from assms obtain v where "(w, v) \<in> set (take (nat k) (rank (stored_with_prefix p t)))"
    by (auto simp: pt_complete_ranked)
  then have "(w, v) \<in> set (rank (stored_with_prefix p t))" by (rule in_set_takeD)
  then have m: "(w, v) \<in> set (stored_with_prefix p t)" by (simp add: set_rank)
  then have pre: "prefix p w" and it: "(w, v) \<in> set (pt_items t)"
    by (simp_all add: stored_with_prefix_def)
  from it obtain m where "find_node t w = Some m" "is_word m"
    using stored_iff [OF assms(1)] by blast
  then have "pt_contains w t" by (simp add: pt_contains_def)
  then show ?thesis using pre by simp
qed

section \<open>The claims about the loader\<close>

text \<open>
  C2. For every row read during bulk load whose first field is present: if the second
  field is missing, or \<^verbatim>\<open>float\<close> rejects it, \<^verbatim>\<open>load_csv\<close> pairs the word with the default
  weight \<open>0\<close>; if \<^verbatim>\<open>float\<close> accepts it, the pair carries the parsed value. The row is any
  row \<open>f # rest\<close> of the file, between the rows \<open>pre\<close> and \<open>post\<close>.
\<close>

theorem load_csv_score:
  assumes "read_csv rt path = Rows (pre @ (f # rest) # post)"
  shows "fst (load_csv rt path) =
           load_rows rt pre [] @
           (py_lower (py_strip f),
            case rest of
              [] \<Rightarrow> 0
            | s # others \<Rightarrow> (case py_float rt s of None \<Rightarrow> 0 | Some v \<Rightarrow> v))
           # load_rows rt post []"
  using assms
  by (simp add: load_csv_Rows load_rows_acc row_score_cases row_word_def)

theorem load_csv_score_witness:
  "read_csv (demo_rt (\<lambda>p. Rows [[''Cat'', ''5''], [], [''Dog'', ''x1''], ['' emu '']])) ''w.csv''
     = Rows ([[''Cat'', ''5''], []] @ (''Dog'' # [''x1'']) # [['' emu '']])
   \<and> fst (load_csv (demo_rt (\<lambda>p. Rows [[''Cat'', ''5''], [], [''Dog'', ''x1''], ['' emu '']])) ''w.csv'')
     = [(''cat'', 5), (''dog'', 0), (''emu'', 0)]"
proof -
  let ?rt = "demo_rt (\<lambda>p. Rows [[''Cat'', ''5''], [], [''Dog'', ''x1''], ['' emu '']])"
  have h: "read_csv ?rt ''w.csv'' = Rows ([[''Cat'', ''5''], []] @ (''Dog'' # [''x1'']) # [['' emu '']])"
    by (simp add: demo_rt_def)
  have ev: "fst (load_csv ?rt ''w.csv'') = [(''cat'', 5), (''dog'', 0), (''emu'', 0)]"
    by code_simp
  show ?thesis
    using h load_csv_score [OF h] ev by simp
qed



section \<open>The claims about the dispatcher\<close>

text \<open>
  C5. For every \<^verbatim>\<open>remove\<close> command, the dispatcher prints \<^verbatim>\<open>OK\<close> exactly when
  \<^verbatim>\<open>trie.remove\<close> returns true and \<^verbatim>\<open>MISS\<close> exactly when it returns false; the
  boolean alone carries presence or absence, the command raises nothing and the loop
  continues. A \<^verbatim>\<open>remove\<close> command is a line of two tokens whose first lowercases to
  \<^verbatim>\<open>remove\<close>.
\<close>

theorem remove_prints_result:
  assumes "py_split (py_strip line) = [c, w]" and "py_lower c = ''remove''"
  shows "parse_and_execute rt ops line t =
           (True, snd (trie_remove ops (py_lower w) t),
            [Stdout (if fst (trie_remove ops (py_lower w) t) then ''OK'' else ''MISS'')])
         \<and> (snd (snd (parse_and_execute rt ops line t)) = [Stdout ''OK'']
              \<longleftrightarrow> fst (trie_remove ops (py_lower w) t))
         \<and> (snd (snd (parse_and_execute rt ops line t)) = [Stdout ''MISS'']
              \<longleftrightarrow> \<not> fst (trie_remove ops (py_lower w) t))"
  by (simp add: parse_remove [OF assms] remove_command_def split: prod.splits)

theorem remove_prints_result_witness:
  "py_split (py_strip ''remove Cat'') = [''remove'', ''Cat'']
   \<and> py_lower ''remove'' = ''remove''
   \<and> parse_and_execute (demo_rt (\<lambda>p. FileNotFound)) pt_ops ''remove Cat'' cat_car_can =
       (True, pt_insert ''can'' 5 (pt_insert ''car'' 3 pt_empty), [Stdout ''OK''])
   \<and> fst (trie_remove pt_ops (py_lower ''Cat'') cat_car_can)"
proof -
  have h1: "py_split (py_strip ''remove Cat'') = [''remove'', ''Cat'']" by code_simp
  have h2: "py_lower ''remove'' = ''remove''" by code_simp
  have ev: "parse_and_execute (demo_rt (\<lambda>p. FileNotFound)) pt_ops ''remove Cat'' cat_car_can =
       (True, pt_insert ''can'' 5 (pt_insert ''car'' 3 pt_empty), [Stdout ''OK''])"
    by code_simp
  have out: "snd (snd (parse_and_execute (demo_rt (\<lambda>p. FileNotFound)) pt_ops ''remove Cat''
      cat_car_can)) = [Stdout ''OK'']"
    by (simp only: ev snd_conv)
  have ok: "fst (trie_remove pt_ops (py_lower ''Cat'') cat_car_can)"
    using out
      remove_prints_result [OF h1 h2, where rt = "demo_rt (\<lambda>p. FileNotFound)"
        and ops = pt_ops and t = cat_car_can]
    by blast
  show ?thesis by (intro conjI h1 h2 ev ok)
qed

text \<open>
  C6. For every sequence of pairs produced by \<^verbatim>\<open>items()\<close>, the \<^verbatim>\<open>save\<close> command, when
  the file can be opened for writing, writes exactly one record per pair, in order,
  each of exactly two fields, the word and the weight; nothing else is written, so the
  file has no header row.
\<close>

theorem save_writes_items:
  assumes "py_split (py_strip line) = [c, path]" and "py_lower c = ''save''"
    and "can_write rt path"
  shows "snd (snd (parse_and_execute rt ops line t)) =
           [Written path (map (\<lambda>(word, score). [FStr word, FNum score]) (fst (trie_items ops t)))]
         \<and> length (map (\<lambda>(word, score). [FStr word, FNum score]) (fst (trie_items ops t)))
             = length (fst (trie_items ops t))
         \<and> (\<forall>row \<in> set (map (\<lambda>(word, score). [FStr word, FNum score]) (fst (trie_items ops t))).
               length row = 2)"
  using assms(3)
  by (auto simp: parse_save [OF assms(1,2)] save_command_def save_csv_def write_rows_acc
      split: prod.splits)

theorem save_writes_items_witness:
  "py_split (py_strip ''save out.csv'') = [''save'', ''out.csv'']
   \<and> py_lower ''save'' = ''save''
   \<and> can_write (demo_rt (\<lambda>p. FileNotFound)) ''out.csv''
   \<and> snd (snd (parse_and_execute (demo_rt (\<lambda>p. FileNotFound)) pt_ops ''save out.csv'' cat_car_can)) =
       [Written ''out.csv''
          [[FStr ''cat'', FNum 5], [FStr ''car'', FNum 3], [FStr ''can'', FNum 5]]]"
proof -
  have h1: "py_split (py_strip ''save out.csv'') = [''save'', ''out.csv'']" by code_simp
  have h2: "py_lower ''save'' = ''save''" by code_simp
  have h3: "can_write (demo_rt (\<lambda>p. FileNotFound)) ''out.csv''" by code_simp
  have ev: "snd (snd (parse_and_execute (demo_rt (\<lambda>p. FileNotFound)) pt_ops ''save out.csv'' cat_car_can)) =
       [Written ''out.csv''
          [[FStr ''cat'', FNum 5], [FStr ''car'', FNum 3], [FStr ''can'', FNum 5]]]"
    by code_simp
  show ?thesis
    using h1 h2 h3 ev save_writes_items [OF h1 h2 h3, where ops = pt_ops and t = cat_car_can]
    by simp
qed

text \<open>
  C7. For every file whose rows \<^verbatim>\<open>load_csv\<close> parses into a list of pairs, the \<^verbatim>\<open>load\<close>
  command invokes \<^verbatim>\<open>insert(word, score)\<close> exactly once per pair, in the order of the
  list, on the trie being loaded: the new trie is the fold of \<^verbatim>\<open>insert\<close> over the pairs
  from a freshly constructed trie, and the calls logged on it are exactly one
  \<open>Insert\<close> per pair, in order. The trie given to the command plays no part.
\<close>

theorem load_inserts_each_pair:
  "fst (load_command rt ops t path) =
     foldl (\<lambda>tr (w, s). trie_insert ops w s tr) (trie_new ops) (fst (load_csv rt path))
   \<and> snd (fst (load_command rt (logged ops) old path)) =
       map (\<lambda>(w, s). Insert w s) (fst (load_csv rt path))
   \<and> fst (fst (load_command rt (logged ops) old path)) = fst (load_command rt ops t path)"
proof (intro conjI)
  show "fst (load_command rt ops t path) =
     foldl (\<lambda>tr (w, s). trie_insert ops w s tr) (trie_new ops) (fst (load_csv rt path))"
    by (simp add: load_command_eq insert_pairs_foldl)
  show "snd (fst (load_command rt (logged ops) old path)) =
       map (\<lambda>(w, s). Insert w s) (fst (load_csv rt path))"
    by (simp add: load_command_eq insert_pairs_logged trie_new_logged)
  show "fst (fst (load_command rt (logged ops) old path)) = fst (load_command rt ops t path)"
    by (simp add: load_command_eq insert_pairs_logged trie_new_logged)
qed

theorem load_inserts_each_pair_witness:
  "snd (fst (load_command (demo_rt (\<lambda>p. Rows [[''Cat'', ''5''], [], [''car'', ''3'']]))
        (logged pt_ops) (cat_car_can, [Remove ''x'']) ''w.csv''))
     = [Insert ''cat'' 5, Insert ''car'' 3]
   \<and> fst (load_command (demo_rt (\<lambda>p. Rows [[''Cat'', ''5''], [], [''car'', ''3'']]))
        pt_ops cat_car_can ''w.csv'')
     = pt_insert ''car'' 3 (pt_insert ''cat'' 5 pt_empty)"
proof -
  let ?rt = "demo_rt (\<lambda>p. Rows [[''Cat'', ''5''], [], [''car'', ''3'']])"
  have ev: "fst (load_csv ?rt ''w.csv'') = [(''cat'', 5), (''car'', 3)]" by code_simp
  show ?thesis
    using ev
      load_inserts_each_pair [where rt = ?rt and ops = pt_ops and path = "''w.csv''"
        and t = cat_car_can and old = "(cat_car_can, [Remove ''x''])"]
    by (simp add: pt_ops_def)
qed

text \<open>
  C8. If the \<^verbatim>\<open>load\<close> command is given the path of a file that does not exist or
  cannot be read, \<^verbatim>\<open>load_csv\<close> returns the empty list and the dispatcher still replaces
  the current trie with a freshly constructed one: whatever was in memory is discarded,
  and the loop continues.
\<close>

theorem load_failure_resets:
  assumes "py_split (py_strip line) = [c, path]" and "py_lower c = ''load''"
    and "read_csv rt path = FileNotFound \<or> read_csv rt path = ReadFailed"
  shows "fst (load_csv rt path) = []
         \<and> parse_and_execute rt ops line t =
             (True, trie_new ops,
              [if read_csv rt path = FileNotFound then LoadNotFound path else LoadFailed path])"
  using assms(3)
  by (auto simp: parse_load [OF assms(1,2)] load_command_eq load_csv_def)

theorem load_failure_resets_witness:
  "py_split (py_strip ''load missing.csv'') = [''load'', ''missing.csv'']
   \<and> py_lower ''load'' = ''load''
   \<and> read_csv (demo_rt (\<lambda>p. FileNotFound)) ''missing.csv'' = FileNotFound
   \<and> pt_items cat_car_can = [(''cat'', 5), (''car'', 3), (''can'', 5)]
   \<and> parse_and_execute (demo_rt (\<lambda>p. FileNotFound)) pt_ops ''load missing.csv'' cat_car_can =
       (True, pt_empty, [LoadNotFound ''missing.csv''])"
proof -
  have h1: "py_split (py_strip ''load missing.csv'') = [''load'', ''missing.csv'']" by code_simp
  have h2: "py_lower ''load'' = ''load''" by code_simp
  have h3: "read_csv (demo_rt (\<lambda>p. FileNotFound)) ''missing.csv'' = FileNotFound
            \<or> read_csv (demo_rt (\<lambda>p. FileNotFound)) ''missing.csv'' = ReadFailed"
    by (simp add: demo_rt_def)
  have ev: "pt_items cat_car_can = [(''cat'', 5), (''car'', 3), (''can'', 5)]" by code_simp
  show ?thesis
    using h1 h2 ev load_failure_resets [OF h1 h2 h3, where ops = pt_ops and t = cat_car_can]
    by (simp add: demo_rt_def pt_ops_def)
qed




text \<open>
  C4. For every \<^verbatim>\<open>insert\<close>, \<^verbatim>\<open>remove\<close>, \<^verbatim>\<open>contains\<close> and \<^verbatim>\<open>complete\<close> command processed
  by the dispatcher, the trie method is called with the lowercased word or prefix:
  the call logged on the trie is the one with \<open>py_lower\<close> of the argument. Every call
  that processing a line adds to the log, the \<^verbatim>\<open>insert\<close> calls of a \<^verbatim>\<open>load\<close> included,
  has a string argument that lowercasing leaves as it is; the words \<^verbatim>\<open>load_csv\<close>
  returns are lowercased too. A lowercased string is already normalized: lowercasing
  it again changes nothing, and it has no uppercase letter.

  The loader applies the same normalization: the words \<^verbatim>\<open>load_csv\<close> returns are, in the
  order of the file, \<open>py_lower\<close> of the stripped first field of each row that has a
  field, and the calls a \<^verbatim>\<open>load\<close> command makes on the new trie are the \<^verbatim>\<open>insert\<close> calls
  with these words, each with the weight of its row. The normalization is simple
  lowercasing: \<open>py_lower\<close> keeps the length of a string and maps it code point by code
  point, an uppercase code point to the one 32 above it and any other to itself.
\<close>

theorem dispatcher_lowercases:
  "(\<forall>c w f v. py_split (py_strip line) = [c, w, f] \<and> py_lower c = ''insert''
        \<and> py_float rt f = Some v \<longrightarrow>
      log_of (parse_and_execute rt (logged ops) line (t, log)) = log @ [Insert (py_lower w) v])
   \<and> (\<forall>c w. py_split (py_strip line) = [c, w] \<and> py_lower c = ''remove'' \<longrightarrow>
      log_of (parse_and_execute rt (logged ops) line (t, log)) = log @ [Remove (py_lower w)])
   \<and> (\<forall>c w. py_split (py_strip line) = [c, w] \<and> py_lower c = ''contains'' \<longrightarrow>
      log_of (parse_and_execute rt (logged ops) line (t, log)) = log @ [Contains (py_lower w)])
   \<and> (\<forall>c p ks k. py_split (py_strip line) = [c, p, ks] \<and> py_lower c = ''complete''
        \<and> py_int rt ks = Some k \<longrightarrow>
      log_of (parse_and_execute rt (logged ops) line (t, log)) = log @ [Complete (py_lower p) k])
   \<and> (\<forall>call \<in> set (log_of (parse_and_execute rt (logged ops) line (t, log))).
        call \<in> set log \<or> lowercased call)
   \<and> (\<forall>w s. (w, s) \<in> set (fst (load_csv rt path)) \<longrightarrow> py_lower w = w)
   \<and> py_lower (py_lower word) = py_lower word
   \<and> (\<forall>ch \<in> set (py_lower word). \<not> is_upper ch)
   \<and> (\<forall>rows. read_csv rt path = Rows rows \<longrightarrow>
        map fst (fst (load_csv rt path)) =
          map (\<lambda>row. py_lower (py_strip (hd row))) (filter (\<lambda>row. row \<noteq> []) rows))
   \<and> (\<forall>c p rows. py_split (py_strip line) = [c, p] \<and> py_lower c = ''load''
        \<and> read_csv rt p = Rows rows \<longrightarrow>
      log_of (parse_and_execute rt (logged ops) line (t, log)) =
        map (\<lambda>row. Insert (py_lower (py_strip (hd row)))
               (case tl row of
                  [] \<Rightarrow> 0
                | s # others \<Rightarrow> (case py_float rt s of None \<Rightarrow> 0 | Some v \<Rightarrow> v)))
          (filter (\<lambda>row. row \<noteq> []) rows))
   \<and> length (py_lower word) = length word
   \<and> (\<forall>i < length word. (of_char (py_lower word ! i) :: nat) =
         (if is_upper (word ! i) then of_char (word ! i) + 32 else of_char (word ! i)))"
proof -
  have 1: "\<forall>c w f v. py_split (py_strip line) = [c, w, f] \<and> py_lower c = ''insert''
        \<and> py_float rt f = Some v \<longrightarrow>
      log_of (parse_and_execute rt (logged ops) line (t, log)) = log @ [Insert (py_lower w) v]"
    using insert_call [of line _ _ _ rt _ ops t log] by blast
  have 2: "\<forall>c w. py_split (py_strip line) = [c, w] \<and> py_lower c = ''remove'' \<longrightarrow>
      log_of (parse_and_execute rt (logged ops) line (t, log)) = log @ [Remove (py_lower w)]"
    using remove_call [of line _ _ rt ops t log] by blast
  have 3: "\<forall>c w. py_split (py_strip line) = [c, w] \<and> py_lower c = ''contains'' \<longrightarrow>
      log_of (parse_and_execute rt (logged ops) line (t, log)) = log @ [Contains (py_lower w)]"
    using contains_call [of line _ _ rt ops t log] by blast
  have 4: "\<forall>c p ks k. py_split (py_strip line) = [c, p, ks] \<and> py_lower c = ''complete''
        \<and> py_int rt ks = Some k \<longrightarrow>
      log_of (parse_and_execute rt (logged ops) line (t, log)) = log @ [Complete (py_lower p) k]"
    using complete_call [of line _ _ _ rt _ ops t log] by blast
  have 5: "\<forall>call \<in> set (log_of (parse_and_execute rt (logged ops) line (t, log))).
        call \<in> set log \<or> lowercased call"
    by (intro ballI) (erule all_calls_lowercased)
  have 6: "\<forall>w s. (w, s) \<in> set (fst (load_csv rt path)) \<longrightarrow> py_lower w = w"
    using load_csv_words_lower by blast
  have 7: "py_lower (py_lower word) = py_lower word" by (rule py_lower_idem)
  have 8: "\<forall>ch \<in> set (py_lower word). \<not> is_upper ch" by (rule py_lower_no_upper)
  have 9: "\<forall>rows. read_csv rt path = Rows rows \<longrightarrow>
        map fst (fst (load_csv rt path)) =
          map (\<lambda>row. py_lower (py_strip (hd row))) (filter (\<lambda>row. row \<noteq> []) rows)"
    using load_csv_words by blast
  have 10: "\<forall>c p rows. py_split (py_strip line) = [c, p] \<and> py_lower c = ''load''
        \<and> read_csv rt p = Rows rows \<longrightarrow>
      log_of (parse_and_execute rt (logged ops) line (t, log)) =
        map (\<lambda>row. Insert (py_lower (py_strip (hd row)))
               (case tl row of
                  [] \<Rightarrow> 0
                | s # others \<Rightarrow> (case py_float rt s of None \<Rightarrow> 0 | Some v \<Rightarrow> v)))
          (filter (\<lambda>row. row \<noteq> []) rows)"
    using load_calls_rows [of line _ _ rt _ ops t log] by blast
  have 11: "length (py_lower word) = length word"
    using py_lower_pointwise [of word] by (rule conjunct1)
  have 12: "\<forall>i < length word. (of_char (py_lower word ! i) :: nat) =
         (if is_upper (word ! i) then of_char (word ! i) + 32 else of_char (word ! i))"
    using py_lower_pointwise [of word] by (rule conjunct2)
  show ?thesis by (intro conjI 1 2 3 4 5 6 7 8 9 10 11 12)
qed

theorem dispatcher_lowercases_witness:
  "py_split (py_strip ''insert CaT 7'') = [''insert'', ''CaT'', ''7'']
   \<and> py_lower ''insert'' = ''insert''
   \<and> py_float (demo_rt (\<lambda>p. Rows [[''DoG'', ''4''], [], [char_of (201 :: nat) # ''mu '']])) ''7'' = Some 7
   \<and> log_of (parse_and_execute (demo_rt (\<lambda>p. Rows [[''DoG'', ''4''], [], [char_of (201 :: nat) # ''mu '']]))
        (logged pt_ops) ''insert CaT 7'' (cat_car_can, [])) = [] @ [Insert (py_lower ''CaT'') 7]
   \<and> py_lower ''CaT'' = ''cat''
   \<and> py_split (py_strip ''LOAD Words.csv'') = [''LOAD'', ''Words.csv'']
   \<and> py_lower ''LOAD'' = ''load''
   \<and> read_csv (demo_rt (\<lambda>p. Rows [[''DoG'', ''4''], [], [char_of (201 :: nat) # ''mu '']])) ''Words.csv''
       = Rows [[''DoG'', ''4''], [], [char_of (201 :: nat) # ''mu '']]
   \<and> log_of (parse_and_execute (demo_rt (\<lambda>p. Rows [[''DoG'', ''4''], [], [char_of (201 :: nat) # ''mu '']]))
        (logged pt_ops) ''LOAD Words.csv'' (cat_car_can, [Contains ''x''])) =
       [Insert ''dog'' 4, Insert (char_of (233 :: nat) # ''mu'') 0]"
proof -
  let ?rows = "[[''DoG'', ''4''], [], [char_of (201 :: nat) # ''mu '']]"
  let ?rt = "demo_rt (\<lambda>p. Rows ?rows)"
  have h1: "py_split (py_strip ''insert CaT 7'') = [''insert'', ''CaT'', ''7'']" by code_simp
  have h2: "py_lower ''insert'' = ''insert''" by code_simp
  have h3: "py_float ?rt ''7'' = Some 7" by code_simp
  have h4: "py_lower ''CaT'' = ''cat''" by code_simp
  have h5: "py_split (py_strip ''LOAD Words.csv'') = [''LOAD'', ''Words.csv'']" by code_simp
  have h6: "py_lower ''LOAD'' = ''load''" by code_simp
  have h7: "read_csv ?rt ''Words.csv'' = Rows ?rows" by (simp add: demo_rt_def)
  have ev: "map (\<lambda>row. Insert (py_lower (py_strip (hd row)))
               (case tl row of
                  [] \<Rightarrow> 0
                | s # others \<Rightarrow> (case py_float ?rt s of None \<Rightarrow> 0 | Some v \<Rightarrow> v)))
          (filter (\<lambda>row. row \<noteq> []) ?rows)
      = [Insert ''dog'' 4, Insert (char_of (233 :: nat) # ''mu'') 0]"
    by code_simp
  have r: "log_of (parse_and_execute ?rt (logged pt_ops) ''insert CaT 7'' (cat_car_can, []))
        = [] @ [Insert (py_lower ''CaT'') 7]"
    using h1 h2 h3
      dispatcher_lowercases [where rt = ?rt and line = "''insert CaT 7''" and ops = pt_ops
        and t = cat_car_can and log = "[]", THEN conjunct1]
    by blast
  have r2': "log_of (parse_and_execute ?rt (logged pt_ops) ''LOAD Words.csv'' (cat_car_can, [Contains ''x''])) =
        map (\<lambda>row. Insert (py_lower (py_strip (hd row)))
               (case tl row of
                  [] \<Rightarrow> 0
                | s # others \<Rightarrow> (case py_float ?rt s of None \<Rightarrow> 0 | Some v \<Rightarrow> v)))
          (filter (\<lambda>row. row \<noteq> []) ?rows)"
    using h5 h6 h7
      dispatcher_lowercases [where rt = ?rt and line = "''LOAD Words.csv''" and ops = pt_ops
        and t = cat_car_can and log = "[Contains ''x'']",
        THEN conjunct2, THEN conjunct2, THEN conjunct2, THEN conjunct2, THEN conjunct2,
        THEN conjunct2, THEN conjunct2, THEN conjunct2, THEN conjunct2, THEN conjunct1]
    by blast
  have r2: "log_of (parse_and_execute ?rt (logged pt_ops) ''LOAD Words.csv'' (cat_car_can, [Contains ''x''])) =
       [Insert ''dog'' 4, Insert (char_of (233 :: nat) # ''mu'') 0]"
    by (rule trans [OF r2' ev])
  show ?thesis by (intro conjI h1 h2 h3 r h4 h5 h6 h7 r2)
qed

text \<open>
  C3, as the specification states it: during the \<^verbatim>\<open>load\<close> command \<^verbatim>\<open>insert\<close> is never
  invoked with an empty word. A file whose only row has an empty first field (the line
  \<^verbatim>\<open>,5\<close>) makes \<^verbatim>\<open>load_command\<close> call \<^verbatim>\<open>insert\<close> with the empty word and the weight 5:
  \<^verbatim>\<open>load_csv\<close> skips rows with no field, and no row for its word.
\<close>

theorem load_inserts_empty_word:
  "snd (fst (load_command (demo_rt (\<lambda>p. Rows [['''', ''5'']])) (logged pt_ops)
        (pt_empty, []) ''words.csv'')) = [Insert '''' 5]"
  by code_simp

text \<open>
  C3, amended. For every record read during bulk load, the loader coerces a missing or
  non-numeric weight to the default \<open>0\<close> before the trie is called and passes no row
  without fields on: the calls made on the new trie are, in the order of the file, one
  \<^verbatim>\<open>insert\<close> for each row that has a field, with the lowercased stripped first field and
  with the weight \<open>0\<close> if the row has no second field or \<^verbatim>\<open>float\<close> rejects it, and the
  value \<^verbatim>\<open>float\<close> returns for the second field otherwise. The loader does not validate
  the word: \<^verbatim>\<open>insert\<close> is invoked with the empty word exactly when some row with a field
  has a first field that is empty or all whitespace.
\<close>

theorem load_coerces_weights_only:
  assumes "read_csv rt path = Rows rows"
  shows "snd (fst (load_command rt (logged ops) old path)) =
           map (\<lambda>row. Insert (py_lower (py_strip (hd row)))
                  (case tl row of
                     [] \<Rightarrow> 0
                   | s # others \<Rightarrow> (case py_float rt s of None \<Rightarrow> 0 | Some v \<Rightarrow> v)))
             (filter (\<lambda>row. row \<noteq> []) rows)
         \<and> ((\<exists>v. Insert [] v \<in> set (snd (fst (load_command rt (logged ops) old path))))
              \<longleftrightarrow> (\<exists>row \<in> set rows. row \<noteq> [] \<and> list_all is_space (hd row)))"
proof (intro conjI)
  show log: "snd (fst (load_command rt (logged ops) old path)) =
           map (\<lambda>row. Insert (py_lower (py_strip (hd row)))
                  (case tl row of
                     [] \<Rightarrow> 0
                   | s # others \<Rightarrow> (case py_float rt s of None \<Rightarrow> 0 | Some v \<Rightarrow> v)))
             (filter (\<lambda>row. row \<noteq> []) rows)"
    using assms
    by (simp add: load_command_eq insert_pairs_logged trie_new_logged load_csv_Rows
        load_rows_explicit comp_def)
  show "(\<exists>v. Insert [] v \<in> set (snd (fst (load_command rt (logged ops) old path))))
              \<longleftrightarrow> (\<exists>row \<in> set rows. row \<noteq> [] \<and> list_all is_space (hd row))"
  proof
    assume "\<exists>v. Insert [] v \<in> set (snd (fst (load_command rt (logged ops) old path)))"
    then obtain row where "row \<in> set rows" "row \<noteq> []"
        "py_lower (py_strip (hd row)) = []"
      unfolding log by auto
    then have "row \<in> set rows \<and> row \<noteq> [] \<and> list_all is_space (hd row)"
      by (simp add: py_lower_Nil_iff py_strip_Nil_iff)
    then show "\<exists>row \<in> set rows. row \<noteq> [] \<and> list_all is_space (hd row)" by blast
  next
    assume "\<exists>row \<in> set rows. row \<noteq> [] \<and> list_all is_space (hd row)"
    then obtain row where r: "row \<in> set rows" "row \<noteq> []" "list_all is_space (hd row)"
      by blast
    then have "py_lower (py_strip (hd row)) = []"
      by (simp add: py_lower_Nil_iff py_strip_Nil_iff)
    then have "Insert [] (case tl row of
                     [] \<Rightarrow> 0
                   | s # others \<Rightarrow> (case py_float rt s of None \<Rightarrow> 0 | Some v \<Rightarrow> v))
        \<in> set (snd (fst (load_command rt (logged ops) old path)))"
      unfolding log using r(1,2) by force
    then show "\<exists>v. Insert [] v \<in> set (snd (fst (load_command rt (logged ops) old path)))"
      by blast
  qed
qed

theorem load_coerces_weights_only_witness:
  "read_csv (demo_rt (\<lambda>p. Rows [[[char_of (160::nat)], ''x''], [], [''Dog'', ''4''], [''Emu'']])) ''w.csv''
     = Rows [[[char_of (160::nat)], ''x''], [], [''Dog'', ''4''], [''Emu'']]
   \<and> snd (fst (load_command (demo_rt (\<lambda>p. Rows [[[char_of (160::nat)], ''x''], [], [''Dog'', ''4''], [''Emu'']]))
        (logged pt_ops) (cat_car_can, []) ''w.csv''))
     = [Insert '''' 0, Insert ''dog'' 4, Insert ''emu'' 0]"
proof -
  let ?rows = "[[[char_of (160::nat)], ''x''], [], [''Dog'', ''4''], [''Emu'']]"
  let ?rt = "demo_rt (\<lambda>p. Rows ?rows)"
  have h: "read_csv ?rt ''w.csv'' = Rows ?rows"
    by (simp add: demo_rt_def)
  have ev: "map (\<lambda>row. Insert (py_lower (py_strip (hd row)))
                  (case tl row of
                     [] \<Rightarrow> 0
                   | s # others \<Rightarrow> (case py_float ?rt s of None \<Rightarrow> 0 | Some v \<Rightarrow> v)))
             (filter (\<lambda>row. row \<noteq> []) ?rows)
      = [Insert '''' 0, Insert ''dog'' 4, Insert ''emu'' 0]"
    by code_simp
  note t = load_coerces_weights_only [OF h, where ops = pt_ops and old = "(cat_car_can, [])"]
  have r: "snd (fst (load_command ?rt (logged pt_ops) (cat_car_can, []) ''w.csv''))
     = [Insert '''' 0, Insert ''dog'' 4, Insert ''emu'' 0]"
    by (rule trans [OF t [THEN conjunct1] ev])
  show ?thesis by (intro conjI h r)
qed

section \<open>The claim about the prefix trie\<close>

text \<open>
  C1. For every trie state (every trie with one child per character at each node, as is
  the empty trie and every trie that \<open>pt_insert\<close> and \<open>pt_remove\<close> make from one), every
  prefix \<open>p\<close> and every \<open>k \<ge> 0\<close>: \<^verbatim>\<open>complete(p, k)\<close> returns the words of the first \<open>k\<close>
  entries of the ranking of the stored pairs whose word has the prefix \<open>p\<close>. So it
  returns at most \<open>k\<close> words, each of them stored and with the prefix \<open>p\<close>; the ranking
  is a permutation of those pairs in which every pair outranks the later ones, by
  descending weight first and by ascending lexicographic order of the word among equal
  weights; a pair is among them iff its word has the prefix and is marked in the trie
  with that weight; the empty trie is such a trie, and \<open>pt_insert\<close> and \<open>pt_remove\<close>
  keep a trie such. With exactly \<^verbatim>\<open>cat\<close> (5), \<^verbatim>\<open>car\<close> (3) and \<^verbatim>\<open>can\<close> (5) stored,
  \<^verbatim>\<open>complete("ca", 3)\<close> returns \<^verbatim>\<open>can\<close>, \<^verbatim>\<open>cat\<close>, \<^verbatim>\<open>car\<close>.
\<close>

theorem complete_top_k:
  fixes t :: "('w::{zero,linorder}) node"
  assumes "invar t" and "0 \<le> k"
  shows "pt_complete p k t = map fst (take (nat k) (rank (stored_with_prefix p t)))
     \<and> int (length (pt_complete p k t)) \<le> k
     \<and> (\<forall>w \<in> set (pt_complete p k t). prefix p w \<and> pt_contains w t)
     \<and> sorted_wrt outranks (rank (stored_with_prefix p t))
     \<and> mset (rank (stored_with_prefix p t)) = mset (stored_with_prefix p t)
     \<and> (\<forall>w v. (w, v) \<in> set (stored_with_prefix p t) \<longleftrightarrow>
           prefix p w \<and> (\<exists>m. find_node t w = Some m \<and> is_word m \<and> weight m = v))
     \<and> invar (pt_empty :: 'w node)
     \<and> invar (pt_insert word weight' t)
     \<and> invar (snd (pt_remove word t))
     \<and> pt_complete ''ca'' 3 cat_car_can = [''can'', ''cat'', ''car'']"
proof -
  have 1: "pt_complete p k t = map fst (take (nat k) (rank (stored_with_prefix p t)))"
    using assms(1) by (rule pt_complete_ranked)
  have 2: "int (length (pt_complete p k t)) \<le> k"
    using assms by (simp add: pt_complete_ranked)
  have 3: "\<forall>w \<in> set (pt_complete p k t). prefix p w \<and> pt_contains w t"
    using assms(1) pt_complete_members by blast
  have 4: "sorted_wrt outranks (rank (stored_with_prefix p t))" by (rule sorted_rank)
  have 5: "mset (rank (stored_with_prefix p t)) = mset (stored_with_prefix p t)"
    by (rule mset_rank)
  have 6: "\<forall>w v. (w, v) \<in> set (stored_with_prefix p t) \<longleftrightarrow>
           prefix p w \<and> (\<exists>m. find_node t w = Some m \<and> is_word m \<and> weight m = v)"
    using stored_iff [OF assms(1)] by (auto simp: stored_with_prefix_def)
  have 7: "pt_complete ''ca'' 3 cat_car_can = [''can'', ''cat'', ''car'']" by code_simp
  have 8: "invar (pt_empty :: 'w node)" by (rule invar_empty)
  have 9: "invar (pt_insert word weight' t)" using assms(1) by (rule invar_insert)
  have 10: "invar (snd (pt_remove word t))" using assms(1) by (rule invar_remove)
  show ?thesis by (intro conjI 1 2 3 4 5 6 7 8 9 10)
qed

theorem complete_top_k_witness:
  "invar cat_car_can \<and> (0::int) \<le> 2
   \<and> pt_complete ''ca'' 2 cat_car_can = map fst (take (nat 2) (rank (stored_with_prefix ''ca'' cat_car_can)))
   \<and> map fst (take (nat 2) (rank (stored_with_prefix ''ca'' cat_car_can))) = [''can'', ''cat'']
   \<and> pt_complete ''c'' 1 (snd (pt_remove ''can'' cat_car_can)) = [''cat'']"
proof -
  have h1: "invar cat_car_can" by code_simp
  have h2: "(0::int) \<le> 2" by simp
  have ev: "map fst (take (nat 2) (rank (stored_with_prefix ''ca'' cat_car_can))) = [''can'', ''cat'']"
    by code_simp
  have ev2: "pt_complete ''c'' 1 (snd (pt_remove ''can'' cat_car_can)) = [''cat'']"
    by code_simp
  note t = complete_top_k [OF h1 h2, where p = "''ca''"]
  show ?thesis by (intro conjI h1 h2 t [THEN conjunct1] ev ev2)
qed

end
